theory Spec2Isabelle
  imports Complex_Main "HOL-Library.Multiset"
begin

section \<open>Data model\<close>

text \<open>
  Node keys are hashable Python values; natural numbers stand for them. Only the four
  division flags of \<open>NodeFlag\<close> are written by the code under study.
\<close>

type_synonym node = nat

datatype NodeFlag = TP_DIV | FP_DIV | FN_DIV | WC_DIV

text \<open>
  The node attribute \<open>min_buffer_correct\<close>: the key may be absent from the attribute
  dictionary (\<open>None\<close>), hold the sentinel \<open>np.nan\<close>, or hold a frame buffer.
\<close>

datatype buffer_attr = NaN | Buffer int

record node_attrs =
  frame :: int
  segmentation_id :: nat
  flags :: "NodeFlag set"
  min_buffer_correct :: "buffer_attr option"

text \<open>
  The integer dtype of a label array, by its width in bits. Labels are not negative
  (0 is the background), so the elements are natural numbers in either case.
\<close>

datatype label_dtype = Unsigned nat | Signed nat

text \<open>
  A segmentation array: its dtype, its numpy shape and, per time point, the frame flattened
  to the list of its labels.
\<close>

record segmentation_array =
  seg_dtype :: label_dtype
  shape :: "nat list"
  frames :: "nat list list"

text \<open>
  Modelled from the spec: the class \<open>TrackingGraph\<close> is not among the sources. It wraps
  a directed graph (\<open>graph.nodes\<close> in insertion order with one attribute dictionary per
  node, the edges in insertion order, each held once), the per-graph flag
  \<open>division_annotations\<close>, the optional segmentation and the frame range.
\<close>

record TrackingGraph =
  node_ids :: "node list"
  attrs :: "node \<Rightarrow> node_attrs"
  edges :: "(node \<times> node) list"
  division_annotations :: bool
  segmentation :: "segmentation_array option"
  start_frame :: int
  end_frame :: int

text \<open>
  Modelled from the spec: the class \<open>Matched\<close> is not among the sources. It owns the two
  graphs and the node-pair mapping, a list of (ground-truth node, predicted node).
\<close>

record Matched =
  gt_graph :: TrackingGraph
  pred_graph :: TrackingGraph
  mapping :: "(node \<times> node) list"

datatype error =
    ValueError_merges
  | ValueError_not_tracking_data
  | ValueError_shape_mismatch
  | ValueError_no_segmentation
  | ValueError_empty_array
  | ValueError_negative_dimensions
  | ValueError_broadcast
  | AttributeError
  | IndexError

section \<open>Graph and index queries\<close>

text \<open>\<open>g.graph.successors(n)\<close> and \<open>g.graph.predecessors(n)\<close>.\<close>

definition successors :: "TrackingGraph \<Rightarrow> node \<Rightarrow> node list" where
  "successors g n = map snd (filter (\<lambda>e. fst e = n) (edges g))"

definition predecessors :: "TrackingGraph \<Rightarrow> node \<Rightarrow> node list" where
  "predecessors g n = map fst (filter (\<lambda>e. snd e = n) (edges g))"

text \<open>Modelled from the spec: \<open>get_divisions\<close> collects the nodes of out-degree \<open>\<ge> 2\<close>.\<close>

definition get_divisions :: "TrackingGraph \<Rightarrow> node list" where
  "get_divisions g = filter (\<lambda>n. 2 \<le> length (successors g n)) (node_ids g)"

text \<open>Modelled from the spec: flags are written to and read from the node attributes.\<close>

definition set_flag_on_node :: "TrackingGraph \<Rightarrow> node \<Rightarrow> NodeFlag \<Rightarrow> TrackingGraph" where
  "set_flag_on_node g n f =
     g\<lparr>attrs := (attrs g)(n := (attrs g n)\<lparr>flags := insert f (flags (attrs g n))\<rparr>)\<rparr>"

definition get_nodes_with_flag :: "TrackingGraph \<Rightarrow> NodeFlag \<Rightarrow> node list" where
  "get_nodes_with_flag g f = filter (\<lambda>n. f \<in> flags (attrs g n)) (node_ids g)"

text \<open>
  Modelled from the spec: the Matched-Pair Index. A lookup returns the partner of the
  first pair, in mapping order, that holds the node, or \<open>None\<close>.
\<close>

definition get_gt_pred_match :: "Matched \<Rightarrow> node \<Rightarrow> node option" where
  "get_gt_pred_match md g = map_option snd (find (\<lambda>pr. fst pr = g) (mapping md))"

definition get_pred_gt_match :: "Matched \<Rightarrow> node \<Rightarrow> node option" where
  "get_pred_gt_match md p = map_option fst (find (\<lambda>pr. snd pr = p) (mapping md))"

text \<open>\<open>collections.Counter\<close>: two counters are equal when the multisets are.\<close>

definition Counter :: "'a list \<Rightarrow> 'a multiset" where
  "Counter xs = mset xs"

section \<open>The division classifier\<close>

definition set_gt_flag :: "Matched \<Rightarrow> node \<Rightarrow> NodeFlag \<Rightarrow> Matched" where
  "set_gt_flag md n f = md\<lparr>gt_graph := set_flag_on_node (gt_graph md) n f\<rparr>"

definition set_pred_flag :: "Matched \<Rightarrow> node \<Rightarrow> NodeFlag \<Rightarrow> Matched" where
  "set_pred_flag md n f = md\<lparr>pred_graph := set_flag_on_node (pred_graph md) n f\<rparr>"

text \<open>
  One iteration of \<open>for gt_node in div_gt\<close>: the state is the matched data and the working
  list \<open>div_pred\<close>.
\<close>

definition classify_gt_node :: "Matched \<times> node list \<Rightarrow> node \<Rightarrow> Matched \<times> node list" where
  "classify_gt_node st gt_node =
     (let md = fst st; div_pred = snd st;
          pred_node = get_gt_pred_match md gt_node;
          md' = (case pred_node of
                   None \<Rightarrow> set_gt_flag md gt_node FN_DIV
                 | Some p \<Rightarrow>
                     if p \<notin> set div_pred then set_gt_flag md gt_node FN_DIV
                     else
                       let succ_gt = map Some (successors (gt_graph md) gt_node);
                           succ_pred = map (get_pred_gt_match md) (successors (pred_graph md) p)
                       in if Counter succ_gt = Counter succ_pred
                          then set_pred_flag (set_gt_flag md gt_node TP_DIV) p TP_DIV
                          else set_pred_flag (set_gt_flag md gt_node WC_DIV) p WC_DIV);
          div_pred' = (case pred_node of
                         None \<Rightarrow> div_pred
                       | Some p \<Rightarrow> if p \<in> set div_pred then remove1 p div_pred else div_pred)
      in (md', div_pred'))"

definition classify_gt_loop :: "Matched \<Rightarrow> node list \<Rightarrow> node list \<Rightarrow> Matched \<times> node list" where
  "classify_gt_loop md div_pred div_gt = foldl classify_gt_node (md, div_pred) div_gt"

definition flag_false_positives :: "Matched \<Rightarrow> node list \<Rightarrow> Matched" where
  "flag_false_positives md div_pred = foldl (\<lambda>m fp_div. set_pred_flag m fp_div FP_DIV) md div_pred"

definition set_division_annotations :: "Matched \<Rightarrow> Matched" where
  "set_division_annotations md =
     md\<lparr>gt_graph := (gt_graph md)\<lparr>division_annotations := True\<rparr>,
        pred_graph := (pred_graph md)\<lparr>division_annotations := True\<rparr>\<rparr>"

definition classify_divisions :: "Matched \<Rightarrow> Matched" where
  "classify_divisions md =
     (if division_annotations (gt_graph md) \<and> division_annotations (pred_graph md) then md
      else
        let div_gt = get_divisions (gt_graph md);
            div_pred = get_divisions (pred_graph md);
            st = classify_gt_loop md div_pred div_gt
        in set_division_annotations (flag_false_positives (fst st) (snd st)))"

text \<open>Readers for the flags, and names for the conditions the statements below use.\<close>

definition gt_flags :: "Matched \<Rightarrow> node \<Rightarrow> NodeFlag set" where
  "gt_flags md n = flags (attrs (gt_graph md) n)"

definition pred_flags :: "Matched \<Rightarrow> node \<Rightarrow> NodeFlag set" where
  "pred_flags md n = flags (attrs (pred_graph md) n)"

definition division_verdict :: "Matched \<Rightarrow> node \<Rightarrow> node \<Rightarrow> NodeFlag" where
  "division_verdict md g p =
     (if Counter (map Some (successors (gt_graph md) g)) =
         Counter (map (get_pred_gt_match md) (successors (pred_graph md) p))
      then TP_DIV else WC_DIV)"

definition no_division_partner :: "Matched \<Rightarrow> node list \<Rightarrow> node \<Rightarrow> bool" where
  "no_division_partner md dp g =
     (case get_gt_pred_match md g of None \<Rightarrow> True | Some p \<Rightarrow> p \<notin> set dp)"

definition already_annotated :: "Matched \<Rightarrow> bool" where
  "already_annotated md \<longleftrightarrow>
     division_annotations (gt_graph md) \<and> division_annotations (pred_graph md)"

definition working_div_pred :: "Matched \<Rightarrow> node list" where
  "working_div_pred md =
     snd (classify_gt_loop md (get_divisions (pred_graph md)) (get_divisions (gt_graph md)))"

definition one_to_one :: "(node \<times> node) list \<Rightarrow> bool" where
  "one_to_one ms \<longleftrightarrow> distinct (map fst ms) \<and> distinct (map snd ms)"

section \<open>The shifted-division corrector\<close>

text \<open>
  \<open>_get_pred_by_t\<close>: walk back \<open>delta_frames\<close> single-predecessor steps. The walk returns
  \<open>None\<close> where a node has no predecessor and raises where it has more than one.
\<close>

fun get_pred_by_t :: "TrackingGraph \<Rightarrow> node \<Rightarrow> nat \<Rightarrow> error + node option" where
  "get_pred_by_t g node 0 = Inr (Some node)"
| "get_pred_by_t g node (Suc k) =
     (case predecessors g node of
        [] \<Rightarrow> Inr None
      | [n] \<Rightarrow> get_pred_by_t g n k
      | _ \<Rightarrow> Inl ValueError_merges)"

text \<open>
  \<open>_get_succ_by_t\<close>: walk forward \<open>delta_frames\<close> single-successor steps; \<open>None\<close> where a
  node has no successor or divides.
\<close>

fun get_succ_by_t :: "TrackingGraph \<Rightarrow> node \<Rightarrow> nat \<Rightarrow> node option" where
  "get_succ_by_t g node 0 = Some node"
| "get_succ_by_t g node (Suc k) =
     (case successors g node of
        [n] \<Rightarrow> get_succ_by_t g n k
      | _ \<Rightarrow> None)"

text \<open>\<open>info.get("min_buffer_correct", np.nan) is not np.nan\<close>.\<close>

definition is_corrected :: "node_attrs \<Rightarrow> bool" where
  "is_corrected a =
     (case min_buffer_correct a of None \<Rightarrow> False | Some NaN \<Rightarrow> False | Some (Buffer b) \<Rightarrow> True)"

text \<open>
  \<open>(a, b) in mapper\<close>, where either component may be the \<open>None\<close> a walk returned; the
  mapping holds pairs of nodes only.
\<close>

definition in_mapper :: "Matched \<Rightarrow> node option \<Rightarrow> node option \<Rightarrow> bool" where
  "in_mapper md a b =
     (case a of None \<Rightarrow> False
      | Some x \<Rightarrow> (case b of None \<Rightarrow> False | Some y \<Rightarrow> (x, y) \<in> set (mapping md)))"

text \<open>
  The two branches of the loop body that compare the lineages of a pair, from
  \<open>if t_fp < t_fn\<close> to the second \<open>correct = True\<close>: the value of \<open>correct\<close>, \<open>False\<close>
  wherever the source says \<open>continue\<close>, or the error the predecessor walk raised.
\<close>

definition compare_lineages :: "Matched \<Rightarrow> node \<Rightarrow> node \<Rightarrow> error + bool" where
  "compare_lineages md fp_node fn_node =
     (let g_gt = gt_graph md; g_pred = pred_graph md;
          t_fp = frame (attrs g_pred fp_node);
          t_fn = frame (attrs g_gt fn_node)
      in if t_fp < t_fn then
           (case get_pred_by_t g_gt fn_node (nat (t_fn - t_fp)) of
              Inl e \<Rightarrow> Inl e
            | Inr fn_pred \<Rightarrow>
                if \<not> in_mapper md fn_pred (Some fp_node) then Inr False
                else
                  let fp_succ = map (\<lambda>node. get_succ_by_t g_pred node (nat (t_fn - t_fp)))
                                    (successors g_pred fp_node);
                      fn_succ = successors g_gt fn_node;
                      fn_succ_mapped = map (get_gt_pred_match md) fn_succ
                  in if Counter fp_succ \<noteq> Counter fn_succ_mapped then Inr False
                     else Inr True)
         else
           (case get_pred_by_t g_pred fp_node (nat (t_fp - t_fn)) of
              Inl e \<Rightarrow> Inl e
            | Inr fp_pred \<Rightarrow>
                if \<not> in_mapper md (Some fn_node) fp_pred then Inr False
                else
                  let fn_succ = map (\<lambda>node. get_succ_by_t g_gt node (nat (t_fp - t_fn)))
                                    (successors g_gt fn_node);
                      fp_succ = successors g_pred fp_node;
                      fp_succ_mapped = map (get_pred_gt_match md) fp_succ
                  in if Counter fp_succ_mapped \<noteq> Counter fn_succ then Inr False
                     else Inr True))"

text \<open>
  The body of the loop over \<open>itertools.product(fp_divs, fn_divs)\<close> up to the final
  \<open>if correct\<close>: the two guards that \<open>continue\<close>, then the comparison of the lineages.
\<close>

definition shifted_pair_correct :: "Matched \<Rightarrow> int \<Rightarrow> node \<Rightarrow> node \<Rightarrow> error + bool" where
  "shifted_pair_correct md n_frames fp_node fn_node =
     (let fp_node_info = attrs (pred_graph md) fp_node;
          fn_node_info = attrs (gt_graph md) fn_node;
          t_fp = frame fp_node_info;
          t_fn = frame fn_node_info
      in if is_corrected fp_node_info \<or> is_corrected fn_node_info then Inr False
         else if \<bar>t_fp - t_fn\<bar> > n_frames \<or> t_fp = t_fn then Inr False
         else compare_lineages md fp_node fn_node)"

definition set_min_buffer_correct :: "TrackingGraph \<Rightarrow> node \<Rightarrow> buffer_attr \<Rightarrow> TrackingGraph" where
  "set_min_buffer_correct g n v =
     g\<lparr>attrs := (attrs g)(n := (attrs g n)\<lparr>min_buffer_correct := Some v\<rparr>)\<rparr>"

text \<open>The two assignments under \<open>if correct\<close>.\<close>

definition record_correction :: "Matched \<Rightarrow> int \<Rightarrow> node \<Rightarrow> node \<Rightarrow> Matched" where
  "record_correction md n_frames fp_node fn_node =
     md\<lparr>gt_graph := set_min_buffer_correct (gt_graph md) fn_node (Buffer n_frames),
        pred_graph := set_min_buffer_correct (pred_graph md) fp_node (Buffer n_frames)\<rparr>"

fun correct_pairs :: "int \<Rightarrow> Matched \<Rightarrow> (node \<times> node) list \<Rightarrow> error + Matched" where
  "correct_pairs n_frames md [] = Inr md"
| "correct_pairs n_frames md ((fp_node, fn_node) # rest) =
     (case shifted_pair_correct md n_frames fp_node fn_node of
        Inl e \<Rightarrow> Inl e
      | Inr correct \<Rightarrow>
          correct_pairs n_frames
            (if correct then record_correction md n_frames fp_node fn_node else md) rest)"

definition correct_shifted_divisions :: "Matched \<Rightarrow> int \<Rightarrow> error + Matched" where
  "correct_shifted_divisions md n_frames =
     (let fp_divs = get_nodes_with_flag (pred_graph md) FP_DIV;
          fn_divs = get_nodes_with_flag (gt_graph md) FN_DIV
      in correct_pairs n_frames md (List.product fp_divs fn_divs))"

text \<open>
  The pairs at which one call of the loop reaches the two assignments, in iteration
  order: a reading of the run, not a part of the program.
\<close>

fun corrected_pairs :: "int \<Rightarrow> Matched \<Rightarrow> (node \<times> node) list \<Rightarrow> (node \<times> node) list" where
  "corrected_pairs n_frames md [] = []"
| "corrected_pairs n_frames md ((fp_node, fn_node) # rest) =
     (case shifted_pair_correct md n_frames fp_node fn_node of
        Inl e \<Rightarrow> []
      | Inr correct \<Rightarrow>
          if correct
          then (fp_node, fn_node) #
               corrected_pairs n_frames (record_correction md n_frames fp_node fn_node) rest
          else corrected_pairs n_frames md rest)"

section \<open>The orchestrator\<close>

definition mark_nan :: "TrackingGraph \<Rightarrow> NodeFlag \<Rightarrow> TrackingGraph" where
  "mark_nan g f = foldl (\<lambda>h node. set_min_buffer_correct h node NaN) g (get_nodes_with_flag g f)"

fun correct_buffers :: "Matched \<Rightarrow> int list \<Rightarrow> error + Matched" where
  "correct_buffers md [] = Inr md"
| "correct_buffers md (delta # deltas) =
     (case correct_shifted_divisions md delta of
        Inl e \<Rightarrow> Inl e
      | Inr md' \<Rightarrow> correct_buffers md' deltas)"

text \<open>The state on which the buffer loop starts: classified, sentinels written.\<close>

definition mark_unset :: "Matched \<Rightarrow> Matched" where
  "mark_unset md =
     md\<lparr>gt_graph := mark_nan (gt_graph md) FN_DIV,
        pred_graph := mark_nan (pred_graph md) FP_DIV\<rparr>"

definition evaluate_division_events :: "Matched \<Rightarrow> int \<Rightarrow> error + Matched" where
  "evaluate_division_events md max_frame_buffer =
     correct_buffers (mark_unset (classify_divisions md)) [1..max_frame_buffer]"

text \<open>Readers for the recorded buffers.\<close>

definition gt_buffer :: "Matched \<Rightarrow> node \<Rightarrow> buffer_attr option" where
  "gt_buffer md n = min_buffer_correct (attrs (gt_graph md) n)"

definition pred_buffer :: "Matched \<Rightarrow> node \<Rightarrow> buffer_attr option" where
  "pred_buffer md n = min_buffer_correct (attrs (pred_graph md) n)"

definition gt_frame :: "Matched \<Rightarrow> node \<Rightarrow> int" where
  "gt_frame md n = frame (attrs (gt_graph md) n)"

definition pred_frame :: "Matched \<Rightarrow> node \<Rightarrow> int" where
  "pred_frame md n = frame (attrs (pred_graph md) n)"

text \<open>Two states that differ at most in the recorded buffers.\<close>

definition same_lineages :: "Matched \<Rightarrow> Matched \<Rightarrow> bool" where
  "same_lineages md md' \<longleftrightarrow>
     mapping md' = mapping md \<and>
     edges (gt_graph md') = edges (gt_graph md) \<and>
     edges (pred_graph md') = edges (pred_graph md) \<and>
     node_ids (gt_graph md') = node_ids (gt_graph md) \<and>
     node_ids (pred_graph md') = node_ids (pred_graph md) \<and>
     gt_frame md' = gt_frame md \<and> pred_frame md' = pred_frame md \<and>
     gt_flags md' = gt_flags md \<and> pred_flags md' = pred_flags md"

text \<open>A node counts as resolved once a buffer is recorded on it.\<close>

definition pred_resolved :: "Matched \<Rightarrow> node \<Rightarrow> bool" where
  "pred_resolved md x = is_corrected (attrs (pred_graph md) x)"

definition gt_resolved :: "Matched \<Rightarrow> node \<Rightarrow> bool" where
  "gt_resolved md x = is_corrected (attrs (gt_graph md) x)"

text \<open>The predecessor walk that the comparison of a pair starts with.\<close>

definition walk_back :: "Matched \<Rightarrow> node \<Rightarrow> node \<Rightarrow> error + node option" where
  "walk_back md fp_node fn_node =
     (if pred_frame md fp_node < gt_frame md fn_node
      then get_pred_by_t (gt_graph md) fn_node (nat (gt_frame md fn_node - pred_frame md fp_node))
      else get_pred_by_t (pred_graph md) fp_node (nat (pred_frame md fp_node - gt_frame md fn_node)))"

text \<open>The two node lists of a pass, and their product in iteration order.\<close>

definition fp_divs :: "Matched \<Rightarrow> node list" where
  "fp_divs md = get_nodes_with_flag (pred_graph md) FP_DIV"

definition fn_divs :: "Matched \<Rightarrow> node list" where
  "fn_divs md = get_nodes_with_flag (gt_graph md) FN_DIV"

definition fp_fn_pairs :: "Matched \<Rightarrow> (node \<times> node) list" where
  "fp_fn_pairs md = List.product (fp_divs md) (fn_divs md)"

text \<open>
  Two states with the same nodes, frames, edges and mapping, whatever their flags and
  buffers.
\<close>

definition same_tracks :: "Matched \<Rightarrow> Matched \<Rightarrow> bool" where
  "same_tracks md md' \<longleftrightarrow>
     mapping md' = mapping md \<and>
     edges (gt_graph md') = edges (gt_graph md) \<and>
     edges (pred_graph md') = edges (pred_graph md) \<and>
     node_ids (gt_graph md') = node_ids (gt_graph md) \<and>
     node_ids (pred_graph md') = node_ids (pred_graph md) \<and>
     gt_frame md' = gt_frame md \<and> pred_frame md' = pred_frame md"

text \<open>A graph without merges: no node that an edge leads to has a second predecessor.\<close>

definition no_merges :: "TrackingGraph \<Rightarrow> bool" where
  "no_merges g = list_all (\<lambda>n. length (predecessors g n) \<le> 1) (map snd (edges g))"

section \<open>IoU matching\<close>

text \<open>
  A labeled frame is an integer array: its dtype and its elements, flattened to the list of
  the labels. Two frames of the same shape hold two lists of the same length, compared
  position by position. The float arithmetic is kept abstract: the entries of the IoU
  matrix and the threshold have a type \<open>'f\<close> with a zero and an order, and \<open>true_divide\<close>
  stands for numpy's \<open>/\<close> on two counts.
\<close>

record labeled_frame =
  frame_dtype :: label_dtype
  pixels :: "nat list"

text \<open>\<open>np.max\<close> raises on an array without elements.\<close>

definition np_max :: "labeled_frame \<Rightarrow> error + nat" where
  "np_max a =
     (case pixels a of [] \<Rightarrow> Inl ValueError_empty_array | x # rest \<Rightarrow> Inr (fold max rest x))"

text \<open>
  \<open>np.max(a) + 1\<close>: the maximum is a scalar of the array's dtype and the sum stays in that
  dtype (NumPy's promotion of a Python integer since version 2), so it wraps around at the
  width of the dtype: to 0 for an unsigned dtype, to the least negative value for a signed
  one.
\<close>

definition plus_one :: "label_dtype \<Rightarrow> nat \<Rightarrow> int" where
  "plus_one dt m =
     (case dt of
        Unsigned w \<Rightarrow> int ((m + 1) mod 2 ^ w)
      | Signed w \<Rightarrow> if int m + 1 < 2 ^ (w - 1) then int m + 1 else int m + 1 - 2 ^ w)"

text \<open>
  \<open>np.logical_and(gt == g, res == p).sum()\<close> and \<open>np.logical_or(gt == g, res == p).sum()\<close>
  on two frames of the same shape.
\<close>

definition intersection_sum :: "nat list \<Rightarrow> nat list \<Rightarrow> nat \<Rightarrow> nat \<Rightarrow> nat" where
  "intersection_sum gt res g p = length (filter (\<lambda>ab. fst ab = g \<and> snd ab = p) (zip gt res))"

definition union_sum :: "nat list \<Rightarrow> nat list \<Rightarrow> nat \<Rightarrow> nat \<Rightarrow> nat" where
  "union_sum gt res g p = length (filter (\<lambda>ab. fst ab = g \<or> snd ab = p) (zip gt res))"

text \<open>
  The loop \<open>for index in range(len(overlapping_gt_labels))\<close> over the two parallel label
  sequences, on the elements of the two frames. The matrix \<open>iou\<close> has \<open>rows \<times> cols\<close> entries;
  reading past the second sequence and writing outside the matrix raise \<open>IndexError\<close>.
  Frames of different shapes are outside the model of frames as lists and are given the
  error of a failed broadcast.
\<close>

fun fill_iou ::
  "(nat \<Rightarrow> nat \<Rightarrow> 'f) \<Rightarrow> nat list \<Rightarrow> nat list \<Rightarrow> nat \<Rightarrow> nat \<Rightarrow>
   nat list \<Rightarrow> nat list \<Rightarrow> (nat \<Rightarrow> nat \<Rightarrow> 'f) \<Rightarrow> error + (nat \<Rightarrow> nat \<Rightarrow> 'f)" where
  "fill_iou true_divide gt res rows cols [] res_labels iou = Inr iou"
| "fill_iou true_divide gt res rows cols (iou_gt_idx # gt_labels) [] iou = Inl IndexError"
| "fill_iou true_divide gt res rows cols (iou_gt_idx # gt_labels) (iou_res_idx # res_labels) iou =
     (if length gt \<noteq> length res then Inl ValueError_broadcast
      else if rows \<le> iou_gt_idx \<or> cols \<le> iou_res_idx then Inl IndexError
      else fill_iou true_divide gt res rows cols gt_labels res_labels
             (iou(iou_gt_idx := (iou iou_gt_idx)(iou_res_idx :=
                true_divide (intersection_sum gt res iou_gt_idx iou_res_idx)
                            (union_sum gt res iou_gt_idx iou_res_idx)))))"

text \<open>\<open>np.where(iou >= threshold)\<close> on the two-dimensional matrix, in row-major order.\<close>

definition np_where_ge ::
  "nat \<Rightarrow> nat \<Rightarrow> (nat \<Rightarrow> nat \<Rightarrow> 'f::ord) \<Rightarrow> 'f \<Rightarrow> (nat \<times> nat) list" where
  "np_where_ge rows cols iou threshold =
     filter (\<lambda>ij. iou (fst ij) (snd ij) \<ge> threshold) (List.product [0..<rows] [0..<cols])"

text \<open>
  \<open>_match_nodes\<close>. The overlap candidate finder \<open>get_labels_with_overlap\<close> is not among the
  sources and is a parameter; it returns the two parallel sequences of candidate labels
  (its third result is not used). \<open>np.zeros\<close> raises on a negative dimension. \<open>np.where\<close>
  on a two-dimensional array returns a tuple of two index arrays, so the test
  \<open>len(pairs) < 2\<close> is a test on the number 2.
\<close>

definition match_nodes ::
  "(labeled_frame \<Rightarrow> labeled_frame \<Rightarrow> nat list \<times> nat list) \<Rightarrow> (nat \<Rightarrow> nat \<Rightarrow> 'f) \<Rightarrow>
   labeled_frame \<Rightarrow> labeled_frame \<Rightarrow> 'f::{zero,ord} \<Rightarrow> error + (nat list \<times> nat list)" where
  "match_nodes get_labels_with_overlap true_divide gt res threshold =
     (case np_max gt of
        Inl e \<Rightarrow> Inl e
      | Inr max_gt \<Rightarrow>
          (case np_max res of
             Inl e \<Rightarrow> Inl e
           | Inr max_res \<Rightarrow>
               let rows = plus_one (frame_dtype gt) max_gt;
                   cols = plus_one (frame_dtype res) max_res
               in if rows < 0 \<or> cols < 0 then Inl ValueError_negative_dimensions
                  else
                    let overlapping = get_labels_with_overlap gt res
                    in (case fill_iou true_divide (pixels gt) (pixels res) (nat rows) (nat cols)
                               (fst overlapping) (snd overlapping) (\<lambda>i j. 0) of
                          Inl e \<Rightarrow> Inl e
                        | Inr iou \<Rightarrow>
                            let pairs = np_where_ge (nat rows) (nat cols) iou threshold
                            in if (2::nat) < 2 then Inr ([], [])
                               else Inr (map fst pairs, map snd pairs))))"

text \<open>
  Modelled from the spec: the nodes of a frame, and among given nodes those whose label
  attribute equals a given id.
\<close>

definition get_nodes_in_frame :: "TrackingGraph \<Rightarrow> int \<Rightarrow> node list" where
  "get_nodes_in_frame g t = filter (\<lambda>n. frame (attrs g n) = t) (node_ids g)"

definition get_nodes_with_label :: "TrackingGraph \<Rightarrow> nat \<Rightarrow> node list \<Rightarrow> node list" where
  "get_nodes_with_label g label_id limit_to =
     filter (\<lambda>n. segmentation_id (attrs g n) = label_id) limit_to"

text \<open>\<open>xs[0]\<close> and \<open>segmentation[i]\<close>, which raise \<open>IndexError\<close> out of range.\<close>

definition first_of :: "'a list \<Rightarrow> error + 'a" where
  "first_of xs = (case xs of [] \<Rightarrow> Inl IndexError | x # rest \<Rightarrow> Inr x)"

definition frame_at :: "segmentation_array \<Rightarrow> nat \<Rightarrow> error + labeled_frame" where
  "frame_at seg i =
     (if i < length (frames seg)
      then Inr \<lparr>frame_dtype = seg_dtype seg, pixels = frames seg ! i\<rparr>
      else Inl IndexError)"

text \<open>The inner loop \<open>for gt_id, pred_id in zip(*matches)\<close>, appending to \<open>mapper\<close>.\<close>

fun append_matches ::
  "TrackingGraph \<Rightarrow> TrackingGraph \<Rightarrow> int \<Rightarrow> (nat \<times> nat) list \<Rightarrow> (node \<times> node) list \<Rightarrow>
   error + (node \<times> node) list" where
  "append_matches gt pred t [] mapper = Inr mapper"
| "append_matches gt pred t ((gt_id, pred_id) # rest) mapper =
     (case first_of (get_nodes_with_label gt gt_id (get_nodes_in_frame gt t)) of
        Inl e \<Rightarrow> Inl e
      | Inr gt_node \<Rightarrow>
          (case first_of (get_nodes_with_label pred pred_id (get_nodes_in_frame pred t)) of
             Inl e \<Rightarrow> Inl e
           | Inr pred_node \<Rightarrow>
               append_matches gt pred t rest (mapper @ [(gt_node, pred_node)])))"

text \<open>The loop \<open>for i, t in enumerate(frame_range)\<close>.\<close>

fun match_frames ::
  "(labeled_frame \<Rightarrow> labeled_frame \<Rightarrow> nat list \<times> nat list) \<Rightarrow> (nat \<Rightarrow> nat \<Rightarrow> 'f) \<Rightarrow>
   TrackingGraph \<Rightarrow> TrackingGraph \<Rightarrow> segmentation_array \<Rightarrow> segmentation_array \<Rightarrow>
   'f::{zero,ord} \<Rightarrow> (nat \<times> int) list \<Rightarrow> (node \<times> node) list \<Rightarrow> error + (node \<times> node) list" where
  "match_frames finder true_divide gt pred gt_seg pred_seg threshold [] mapper = Inr mapper"
| "match_frames finder true_divide gt pred gt_seg pred_seg threshold ((i, t) # rest) mapper =
     (case frame_at gt_seg i of
        Inl e \<Rightarrow> Inl e
      | Inr gt_frame_i \<Rightarrow>
          (case frame_at pred_seg i of
             Inl e \<Rightarrow> Inl e
           | Inr pred_frame_i \<Rightarrow>
               (case match_nodes finder true_divide gt_frame_i pred_frame_i threshold of
                  Inl e \<Rightarrow> Inl e
                | Inr matches \<Rightarrow>
                    (case append_matches gt pred t (zip (fst matches) (snd matches)) mapper of
                       Inl e \<Rightarrow> Inl e
                     | Inr mapper' \<Rightarrow>
                         match_frames finder true_divide gt pred gt_seg pred_seg threshold
                           rest mapper'))))"

text \<open>
  The arguments of \<open>match_iou\<close> are arbitrary Python objects; what matters is whether one
  is a \<open>TrackingGraph\<close>.
\<close>

datatype py_object = TrackingGraph_object TrackingGraph | Other_object

text \<open>
  \<open>match_iou\<close>. Reading \<open>.shape\<close> of a segmentation that is \<open>None\<close> raises
  \<open>AttributeError\<close>; the ground-truth side is read first.
\<close>

definition match_iou ::
  "(labeled_frame \<Rightarrow> labeled_frame \<Rightarrow> nat list \<times> nat list) \<Rightarrow> (nat \<Rightarrow> nat \<Rightarrow> 'f) \<Rightarrow>
   py_object \<Rightarrow> py_object \<Rightarrow> 'f::{zero,ord} \<Rightarrow> error + (node \<times> node) list" where
  "match_iou finder true_divide gt pred threshold =
     (case gt of
        Other_object \<Rightarrow> Inl ValueError_not_tracking_data
      | TrackingGraph_object g \<Rightarrow>
          (case pred of
             Other_object \<Rightarrow> Inl ValueError_not_tracking_data
           | TrackingGraph_object p \<Rightarrow>
               (case segmentation g of
                  None \<Rightarrow> Inl AttributeError
                | Some gt_seg \<Rightarrow>
                    (case segmentation p of
                       None \<Rightarrow> Inl AttributeError
                     | Some pred_seg \<Rightarrow>
                         if shape gt_seg \<noteq> shape pred_seg then Inl ValueError_shape_mismatch
                         else
                           let frame_range = [start_frame g..end_frame g - 1]
                           in match_frames finder true_divide g p gt_seg pred_seg threshold
                                (zip [0..<length frame_range] frame_range) []))))"

text \<open>\<open>IOUMatcher._compute_mapping\<close>, with the matcher's \<open>iou_threshold\<close> as an argument.\<close>

definition compute_mapping ::
  "(labeled_frame \<Rightarrow> labeled_frame \<Rightarrow> nat list \<times> nat list) \<Rightarrow> (nat \<Rightarrow> nat \<Rightarrow> 'f) \<Rightarrow>
   'f::{zero,ord} \<Rightarrow> TrackingGraph \<Rightarrow> TrackingGraph \<Rightarrow> error + Matched" where
  "compute_mapping finder true_divide iou_threshold gt_graph_arg pred_graph_arg =
     (if segmentation gt_graph_arg = None \<or> segmentation pred_graph_arg = None
      then Inl ValueError_no_segmentation
      else
        (case match_iou finder true_divide (TrackingGraph_object gt_graph_arg)
                (TrackingGraph_object pred_graph_arg) iou_threshold of
           Inl e \<Rightarrow> Inl e
         | Inr m \<Rightarrow>
             Inr \<lparr>gt_graph = gt_graph_arg, pred_graph = pred_graph_arg, mapping = m\<rparr>))"

text \<open>The exact quotient of two counts, one reading of \<open>true_divide\<close>.\<close>

definition exact_divide :: "nat \<Rightarrow> nat \<Rightarrow> rat" where
  "exact_divide i u = of_nat i / of_nat u"

text \<open>The candidate pairs of a frame pair: the finder's two sequences, zipped.\<close>

definition candidate_pairs ::
  "(labeled_frame \<Rightarrow> labeled_frame \<Rightarrow> nat list \<times> nat list) \<Rightarrow> labeled_frame \<Rightarrow> labeled_frame \<Rightarrow>
   (nat \<times> nat) list" where
  "candidate_pairs finder gt res = zip (fst (finder gt res)) (snd (finder gt res))"

definition iou_of :: "(nat \<Rightarrow> nat \<Rightarrow> 'f) \<Rightarrow> nat list \<Rightarrow> nat list \<Rightarrow> nat \<Rightarrow> nat \<Rightarrow> 'f" where
  "iou_of true_divide gt res g p =
     true_divide (intersection_sum gt res g p) (union_sum gt res g p)"

section \<open>Concrete datasets\<close>

text \<open>A graph without annotations, from its nodes with their frames and its edges.\<close>

definition plain_attrs :: "(node \<times> int) list \<Rightarrow> node \<Rightarrow> node_attrs" where
  "plain_attrs fs n =
     \<lparr>frame = (case map_of fs n of None \<Rightarrow> 0 | Some t \<Rightarrow> t), segmentation_id = n,
      flags = {}, min_buffer_correct = None\<rparr>"

definition plain_graph :: "(node \<times> int) list \<Rightarrow> (node \<times> node) list \<Rightarrow> TrackingGraph" where
  "plain_graph fs es =
     \<lparr>node_ids = map fst fs, attrs = plain_attrs fs, edges = es,
      division_annotations = False, segmentation = None, start_frame = 0, end_frame = 0\<rparr>"

text \<open>
  The late-division scenario. Ground truth: \<open>g = 1\<close> at frame 5 divides into \<open>d1 = 2\<close> and
  \<open>d2 = 3\<close> at frame 6, which are followed to \<open>4\<close> and \<open>5\<close> at frame 7. Prediction: \<open>q = 11\<close> at
  frame 5, its only successor \<open>p = 12\<close> at frame 6 divides into \<open>e1 = 13\<close> and \<open>e2 = 14\<close> at
  frame 7. \<open>g\<close> is matched to \<open>q\<close>, and \<open>e1\<close>, \<open>e2\<close> are matched to the nodes of their own frame
  that \<open>d1\<close>, \<open>d2\<close> lead to.
\<close>

definition late_gt :: TrackingGraph where
  "late_gt = plain_graph [(1, 5), (2, 6), (3, 6)] [(1, 2), (1, 3)]"

definition late_pred :: TrackingGraph where
  "late_pred = plain_graph [(11, 5), (12, 6), (13, 7), (14, 7)] [(11, 12), (12, 13), (12, 14)]"

definition late_gt_tracked :: TrackingGraph where
  "late_gt_tracked =
     plain_graph [(1, 5), (2, 6), (3, 6), (4, 7), (5, 7)] [(1, 2), (1, 3), (2, 4), (3, 5)]"

definition late_tracked :: Matched where
  "late_tracked = \<lparr>gt_graph = late_gt_tracked, pred_graph = late_pred,
                    mapping = [(1, 11), (4, 13), (5, 14)]\<rparr>"

text \<open>
  A division found in both graphs: \<open>1\<close> divides into \<open>2\<close>, \<open>3\<close> in the ground truth, \<open>11\<close>
  into \<open>12\<close>, \<open>13\<close> in the prediction, under a one-to-one mapping.
\<close>

definition twin_gt :: TrackingGraph where
  "twin_gt = plain_graph [(1, 0), (2, 1), (3, 1)] [(1, 2), (1, 3)]"

definition twin_pred :: TrackingGraph where
  "twin_pred = plain_graph [(11, 0), (12, 1), (13, 1)] [(11, 12), (11, 13)]"

definition twin_matched :: Matched where
  "twin_matched = \<lparr>gt_graph = twin_gt, pred_graph = twin_pred,
                    mapping = [(1, 11), (2, 12), (3, 13)]\<rparr>"

text \<open>The same graphs with the ground-truth daughter \<open>2\<close> matched to both predicted daughters.\<close>

definition twin_overlapping :: Matched where
  "twin_overlapping = \<lparr>gt_graph = twin_gt, pred_graph = twin_pred,
                        mapping = [(1, 11), (2, 12), (2, 13), (3, 13)]\<rparr>"

text \<open>
  The tracked late-division scenario with a merge added to the prediction: \<open>15\<close> at frame
  8 has the two predecessors \<open>13\<close> and \<open>14\<close>.
\<close>

definition late_pred_merging :: TrackingGraph where
  "late_pred_merging =
     plain_graph [(11, 5), (12, 6), (13, 7), (14, 7), (15, 8)]
                 [(11, 12), (12, 13), (12, 14), (13, 15), (14, 15)]"

definition late_merging :: Matched where
  "late_merging = \<lparr>gt_graph = late_gt_tracked, pred_graph = late_pred_merging,
                    mapping = [(1, 11), (4, 13), (5, 14)]\<rparr>"

text \<open>
  The tracked late-division scenario where the predicted division \<open>12\<close> itself has two
  predecessors, \<open>11\<close> and \<open>10\<close>, both at frame 5.
\<close>

definition late_pred_merged_parent :: TrackingGraph where
  "late_pred_merged_parent =
     plain_graph [(10, 5), (11, 5), (12, 6), (13, 7), (14, 7)]
                 [(11, 12), (10, 12), (12, 13), (12, 14)]"

definition late_merged_parent :: Matched where
  "late_merged_parent = \<lparr>gt_graph = late_gt_tracked, pred_graph = late_pred_merged_parent,
                          mapping = [(1, 11), (4, 13), (5, 14)]\<rparr>"

text \<open>
  Two frames of four pixels: label \<open>1\<close> covers two pixels in the first and one of them in
  the second, label \<open>2\<close> covers the same pixel in both. A finder that proposes \<open>(1, 1)\<close> and
  \<open>(2, 2)\<close>, and one that proposes nothing.
\<close>

definition frame_a :: labeled_frame where
  "frame_a = \<lparr>frame_dtype = Signed 64, pixels = [1, 1, 0, 2]\<rparr>"

definition frame_b :: labeled_frame where
  "frame_b = \<lparr>frame_dtype = Signed 64, pixels = [1, 0, 0, 2]\<rparr>"

definition diagonal_finder :: "labeled_frame \<Rightarrow> labeled_frame \<Rightarrow> nat list \<times> nat list" where
  "diagonal_finder gt res = ([1, 2], [1, 2])"

definition empty_finder :: "labeled_frame \<Rightarrow> labeled_frame \<Rightarrow> nat list \<times> nat list" where
  "empty_finder gt res = ([], [])"

text \<open>
  Graphs of one frame with a segmentation: shape \<open>(1, 2, 2)\<close> on \<open>segmented_a\<close> and
  \<open>segmented_b\<close>, shape \<open>(1, 4)\<close> on \<open>segmented_flat\<close>.
\<close>

definition segmented_a :: TrackingGraph where
  "segmented_a = (plain_graph [(1, 0), (2, 0)] [])
     \<lparr>segmentation := Some \<lparr>seg_dtype = Signed 64, shape = [1, 2, 2], frames = [pixels frame_a]\<rparr>, end_frame := 1\<rparr>"

definition segmented_b :: TrackingGraph where
  "segmented_b = (plain_graph [(1, 0), (2, 0)] [])
     \<lparr>segmentation := Some \<lparr>seg_dtype = Signed 64, shape = [1, 2, 2], frames = [pixels frame_b]\<rparr>, end_frame := 1\<rparr>"

definition segmented_flat :: TrackingGraph where
  "segmented_flat = (plain_graph [(1, 0), (2, 0)] [])
     \<lparr>segmentation := Some \<lparr>seg_dtype = Signed 64, shape = [1, 4], frames = [pixels frame_b]\<rparr>, end_frame := 1\<rparr>"

text \<open>
  Two predicted divisions around one ground-truth division. Ground truth: \<open>1\<close> (frame 4)
  \<open>\<rightarrow> 2\<close> (frame 5), which divides into \<open>3\<close>, \<open>4\<close> (frame 6), followed by \<open>5\<close>, \<open>6\<close> (frame 7);
  \<open>5 \<rightarrow> 7\<close> (frame 8), which divides into \<open>8\<close>, \<open>9\<close> (frame 9). Prediction: \<open>11\<close> (frame 4)
  divides into \<open>12\<close>, \<open>13\<close> (frame 5), followed by \<open>14\<close>, \<open>15\<close> (frame 6); \<open>14\<close> divides into
  \<open>16\<close>, \<open>17\<close> (frame 7), followed by \<open>18\<close>, \<open>19\<close> (frame 8) and \<open>20\<close>, \<open>21\<close> (frame 9). The
  mapping is one-to-one and matches nodes of equal frames.
\<close>

definition chained_gt :: TrackingGraph where
  "chained_gt =
     plain_graph [(1, 4), (2, 5), (3, 6), (4, 6), (5, 7), (6, 7), (7, 8), (8, 9), (9, 9)]
                 [(1, 2), (2, 3), (2, 4), (3, 5), (4, 6), (5, 7), (7, 8), (7, 9)]"

definition chained_pred :: TrackingGraph where
  "chained_pred =
     plain_graph [(11, 4), (12, 5), (13, 5), (14, 6), (15, 6), (16, 7), (17, 7), (18, 8),
                  (19, 8), (20, 9), (21, 9)]
                 [(11, 12), (11, 13), (12, 14), (13, 15), (14, 16), (14, 17), (16, 18),
                  (18, 20), (17, 19), (19, 21)]"

definition chained :: Matched where
  "chained = \<lparr>gt_graph = chained_gt, pred_graph = chained_pred,
               mapping = [(1, 11), (2, 12), (3, 14), (4, 15), (5, 16), (6, 17), (7, 18),
                          (8, 20), (9, 21)]\<rparr>"

text \<open>
  Two ground-truth divisions matched to one predicted division: \<open>1\<close> divides into \<open>2\<close>, \<open>3\<close>
  and \<open>4\<close> into \<open>5\<close>, \<open>6\<close>; the prediction has \<open>11\<close> dividing into \<open>12\<close>, \<open>13\<close>. Both \<open>1\<close> and \<open>4\<close>
  are matched to \<open>11\<close>, and no node is the first component of two pairs.
\<close>

definition shared_gt :: TrackingGraph where
  "shared_gt = plain_graph [(1, 0), (2, 1), (3, 1), (4, 0), (5, 1), (6, 1)]
                           [(1, 2), (1, 3), (4, 5), (4, 6)]"

definition shared_partner :: Matched where
  "shared_partner = \<lparr>gt_graph = shared_gt, pred_graph = twin_pred,
                      mapping = [(1, 11), (4, 11), (2, 12), (3, 13)]\<rparr>"

text \<open>
  Two frames of dtype \<open>uint8\<close> and two pixels: the label \<open>255\<close> in the first covers the pixel
  that the label \<open>1\<close> covers in the second, and a finder that proposes this pair. A frame
  without pixels.
\<close>

definition frame_u8_full :: labeled_frame where
  "frame_u8_full = \<lparr>frame_dtype = Unsigned 8, pixels = [255, 0]\<rparr>"

definition frame_u8_one :: labeled_frame where
  "frame_u8_one = \<lparr>frame_dtype = Unsigned 8, pixels = [1, 0]\<rparr>"

definition full_finder :: "labeled_frame \<Rightarrow> labeled_frame \<Rightarrow> nat list \<times> nat list" where
  "full_finder gt res = ([255], [1])"

definition frame_no_pixels :: labeled_frame where
  "frame_no_pixels = \<lparr>frame_dtype = Signed 64, pixels = []\<rparr>"

section \<open>Properties of the classifier\<close>

lemma classify_gt_node_unmatched:
  "get_gt_pred_match md g = None \<Longrightarrow>
   classify_gt_node (md, dp) g = (set_gt_flag md g FN_DIV, dp)"
  by (simp add: classify_gt_node_def)

lemma classify_gt_node_not_division:
  "get_gt_pred_match md g = Some p \<Longrightarrow> p \<notin> set dp \<Longrightarrow>
   classify_gt_node (md, dp) g = (set_gt_flag md g FN_DIV, dp)"
  by (simp add: classify_gt_node_def)

lemma classify_gt_node_division:
  "get_gt_pred_match md g = Some p \<Longrightarrow> p \<in> set dp \<Longrightarrow>
   classify_gt_node (md, dp) g =
     (set_pred_flag (set_gt_flag md g (division_verdict md g p)) p (division_verdict md g p),
      remove1 p dp)"
  by (simp add: classify_gt_node_def division_verdict_def Let_def)

lemma classify_gt_node_cases:
  obtains
    (unmatched) "get_gt_pred_match md g = None"
      "classify_gt_node (md, dp) g = (set_gt_flag md g FN_DIV, dp)"
  | (not_division) p where "get_gt_pred_match md g = Some p" "p \<notin> set dp"
      "classify_gt_node (md, dp) g = (set_gt_flag md g FN_DIV, dp)"
  | (division) p where "get_gt_pred_match md g = Some p" "p \<in> set dp"
      "classify_gt_node (md, dp) g =
        (set_pred_flag (set_gt_flag md g (division_verdict md g p)) p (division_verdict md g p),
         remove1 p dp)"
  using classify_gt_node_unmatched classify_gt_node_not_division classify_gt_node_division
  by (cases "get_gt_pred_match md g") blast+


lemma set_gt_flag_simps [simp]:
  "mapping (set_gt_flag md n f) = mapping md"
  "pred_graph (set_gt_flag md n f) = pred_graph md"
  "edges (gt_graph (set_gt_flag md n f)) = edges (gt_graph md)"
  "node_ids (gt_graph (set_gt_flag md n f)) = node_ids (gt_graph md)"
  "division_annotations (gt_graph (set_gt_flag md n f)) = division_annotations (gt_graph md)"
  by (simp_all add: set_gt_flag_def set_flag_on_node_def)

lemma set_pred_flag_simps [simp]:
  "mapping (set_pred_flag md n f) = mapping md"
  "gt_graph (set_pred_flag md n f) = gt_graph md"
  "edges (pred_graph (set_pred_flag md n f)) = edges (pred_graph md)"
  "node_ids (pred_graph (set_pred_flag md n f)) = node_ids (pred_graph md)"
  "division_annotations (pred_graph (set_pred_flag md n f)) = division_annotations (pred_graph md)"
  by (simp_all add: set_pred_flag_def set_flag_on_node_def)

lemma gt_flags_set_gt_flag [simp]:
  "gt_flags (set_gt_flag md n f) x = (if x = n then insert f (gt_flags md n) else gt_flags md x)"
  by (simp add: gt_flags_def set_gt_flag_def set_flag_on_node_def)

lemma gt_flags_set_pred_flag [simp]: "gt_flags (set_pred_flag md n f) x = gt_flags md x"
  by (simp add: gt_flags_def)

lemma pred_flags_set_pred_flag [simp]:
  "pred_flags (set_pred_flag md n f) x =
     (if x = n then insert f (pred_flags md n) else pred_flags md x)"
  by (simp add: pred_flags_def set_pred_flag_def set_flag_on_node_def)

lemma pred_flags_set_gt_flag [simp]: "pred_flags (set_gt_flag md n f) x = pred_flags md x"
  by (simp add: pred_flags_def)

lemma get_gt_pred_match_cong:
  "mapping md' = mapping md \<Longrightarrow> get_gt_pred_match md' = get_gt_pred_match md"
  by (simp add: get_gt_pred_match_def fun_eq_iff)

lemma classify_gt_node_match:
  "get_gt_pred_match (fst (classify_gt_node (md, dp) g)) = get_gt_pred_match md"
proof (rule get_gt_pred_match_cong)
  show "mapping (fst (classify_gt_node (md, dp) g)) = mapping md"
    by (cases md g dp rule: classify_gt_node_cases) simp_all
qed

lemma classify_gt_node_working_subset:
  "set (snd (classify_gt_node (md, dp) g)) \<subseteq> set dp"
  using set_remove1_subset [of _ dp]
  by (cases md g dp rule: classify_gt_node_cases) auto

lemma classify_gt_node_working_distinct:
  "distinct dp \<Longrightarrow> distinct (snd (classify_gt_node (md, dp) g))"
  by (cases md g dp rule: classify_gt_node_cases) simp_all

lemma classify_gt_node_gt_flags_other:
  "x \<noteq> g \<Longrightarrow> gt_flags (fst (classify_gt_node (md, dp) g)) x = gt_flags md x"
  by (cases md g dp rule: classify_gt_node_cases) simp_all

lemma classify_gt_node_pred_other:
  "get_gt_pred_match md g \<noteq> Some p \<Longrightarrow>
   pred_flags (fst (classify_gt_node (md, dp) g)) p = pred_flags md p \<and>
   (p \<in> set (snd (classify_gt_node (md, dp) g)) \<longleftrightarrow> p \<in> set dp)"
  by (cases md g dp rule: classify_gt_node_cases) auto

lemma classify_gt_node_fn:
  assumes "no_division_partner md dp g"
  shows "gt_flags (fst (classify_gt_node (md, dp) g)) g = insert FN_DIV (gt_flags md g)"
  using assms
  by (cases md g dp rule: classify_gt_node_cases) (simp_all add: no_division_partner_def)

lemma classify_loop_fn:
  assumes "no_division_partner md dp g"
  shows "gt_flags (fst (foldl classify_gt_node (md, dp) gs)) g =
         (if g \<in> set gs then insert FN_DIV (gt_flags md g) else gt_flags md g)"
  using assms
proof (induction gs arbitrary: md dp)
  case Nil
  then show ?case by simp
next
  case (Cons a gs)
  obtain md' dp' where st': "classify_gt_node (md, dp) a = (md', dp')"
    by (cases "classify_gt_node (md, dp) a")
  have sub: "set dp' \<subseteq> set dp"
    using classify_gt_node_working_subset [of md dp a] st' by simp
  have m: "get_gt_pred_match md' = get_gt_pred_match md"
    using classify_gt_node_match [of md dp a] st' by simp
  have pre: "no_division_partner md' dp' g"
    using Cons.prems sub m by (auto simp: no_division_partner_def split: option.splits)
  have step: "gt_flags md' g = (if a = g then insert FN_DIV (gt_flags md g) else gt_flags md g)"
  proof (cases "a = g")
    case True
    with classify_gt_node_fn [OF Cons.prems] st' show ?thesis by simp
  next
    case False
    then have "g \<noteq> a" by simp
    from classify_gt_node_gt_flags_other [OF this, of md dp] st' False show ?thesis by simp
  qed
  have "foldl classify_gt_node (md, dp) (a # gs) = foldl classify_gt_node (md', dp') gs"
    using st' by simp
  then show ?case
    using Cons.IH [OF pre] step by (simp split: if_splits)
qed


lemma classify_loop_step:
  "classify_gt_node (md, dp) a = (md', dp') \<Longrightarrow>
   foldl classify_gt_node (md, dp) (a # gs) = foldl classify_gt_node (md', dp') gs"
  by simp

lemma classify_loop_gt_other:
  "g \<notin> set gs \<Longrightarrow> gt_flags (fst (foldl classify_gt_node (md, dp) gs)) g = gt_flags md g"
proof (induction gs arbitrary: md dp)
  case Nil
  then show ?case by simp
next
  case (Cons a gs)
  obtain md' dp' where st': "classify_gt_node (md, dp) a = (md', dp')"
    by (cases "classify_gt_node (md, dp) a")
  from Cons.prems have "g \<noteq> a" "g \<notin> set gs" by auto
  from classify_gt_node_gt_flags_other [OF \<open>g \<noteq> a\<close>, of md dp] st'
  have "gt_flags md' g = gt_flags md g" by simp
  with Cons.IH [OF \<open>g \<notin> set gs\<close>, of md' dp'] classify_loop_step [OF st', of gs]
  show ?case by simp
qed

lemma classify_loop_pred_other:
  "list_all (\<lambda>g. get_gt_pred_match md g \<noteq> Some p) gs \<Longrightarrow>
   pred_flags (fst (foldl classify_gt_node (md, dp) gs)) p = pred_flags md p \<and>
   (p \<in> set (snd (foldl classify_gt_node (md, dp) gs)) \<longleftrightarrow> p \<in> set dp)"
proof (induction gs arbitrary: md dp)
  case Nil
  then show ?case by simp
next
  case (Cons a gs)
  obtain md' dp' where st': "classify_gt_node (md, dp) a = (md', dp')"
    by (cases "classify_gt_node (md, dp) a")
  from Cons.prems have a: "get_gt_pred_match md a \<noteq> Some p"
    and rest: "list_all (\<lambda>g. get_gt_pred_match md g \<noteq> Some p) gs" by simp_all
  have m: "get_gt_pred_match md' = get_gt_pred_match md"
    using classify_gt_node_match [of md dp a] st' by simp
  from classify_gt_node_pred_other [OF a, of dp] st'
  have one: "pred_flags md' p = pred_flags md p" "p \<in> set dp' \<longleftrightarrow> p \<in> set dp" by simp_all
  from rest m have "list_all (\<lambda>g. get_gt_pred_match md' g \<noteq> Some p) gs" by simp
  from Cons.IH [OF this, of dp'] one classify_loop_step [OF st', of gs]
  show ?case by simp
qed

lemma classify_loop_working_distinct:
  "distinct dp \<Longrightarrow> distinct (snd (foldl classify_gt_node (md, dp) gs))"
proof (induction gs arbitrary: md dp)
  case Nil
  then show ?case by simp
next
  case (Cons a gs)
  obtain md' dp' where st': "classify_gt_node (md, dp) a = (md', dp')"
    by (cases "classify_gt_node (md, dp) a")
  from classify_gt_node_working_distinct [OF Cons.prems, of md a] st'
  have "distinct dp'" by simp
  from Cons.IH [OF this, of md'] classify_loop_step [OF st', of gs] show ?case by simp
qed

lemma flag_false_positives_pred_flags:
  "pred_flags (flag_false_positives md dp) p =
     (if p \<in> set dp then insert FP_DIV (pred_flags md p) else pred_flags md p)"
  unfolding flag_false_positives_def
  by (induction dp arbitrary: md) auto

lemma flag_false_positives_gt_graph [simp]:
  "gt_graph (flag_false_positives md dp) = gt_graph md"
  unfolding flag_false_positives_def
  by (induction dp arbitrary: md) auto

lemma set_division_annotations_flags [simp]:
  "gt_flags (set_division_annotations md) = gt_flags md"
  "pred_flags (set_division_annotations md) = pred_flags md"
  by (simp_all add: set_division_annotations_def gt_flags_def pred_flags_def fun_eq_iff)

lemma classify_divisions_unfold:
  "\<not> already_annotated md \<Longrightarrow>
   classify_divisions md =
   set_division_annotations
     (flag_false_positives
        (fst (classify_gt_loop md (get_divisions (pred_graph md)) (get_divisions (gt_graph md))))
        (working_div_pred md))"
  unfolding already_annotated_def working_div_pred_def classify_divisions_def Let_def
  by (rule if_not_P)

lemma classify_divisions_gt_flags:
  "\<not> already_annotated md \<Longrightarrow>
   gt_flags (classify_divisions md) g =
   gt_flags (fst (classify_gt_loop md (get_divisions (pred_graph md)) (get_divisions (gt_graph md)))) g"
  by (simp add: classify_divisions_unfold) (simp add: gt_flags_def)

lemma classify_divisions_pred_flags:
  "\<not> already_annotated md \<Longrightarrow>
   pred_flags (classify_divisions md) p =
   (if p \<in> set (working_div_pred md)
    then insert FP_DIV
      (pred_flags (fst (classify_gt_loop md (get_divisions (pred_graph md)) (get_divisions (gt_graph md)))) p)
    else pred_flags (fst (classify_gt_loop md (get_divisions (pred_graph md)) (get_divisions (gt_graph md)))) p)"
  by (simp add: classify_divisions_unfold flag_false_positives_pred_flags)


lemma find_fst_distinct:
  "distinct (map fst ms) \<Longrightarrow>
   map_option snd (find (\<lambda>pr. fst pr = g) ms) = Some p \<longleftrightarrow> (g, p) \<in> set ms"
  by (induction ms) (auto simp: rev_image_eqI)

lemma find_snd_distinct:
  "distinct (map snd ms) \<Longrightarrow>
   map_option fst (find (\<lambda>pr. snd pr = p) ms) = Some g \<longleftrightarrow> (g, p) \<in> set ms"
  by (induction ms) (auto simp: rev_image_eqI)

lemma one_to_one_gt_pred:
  "one_to_one (mapping md) \<Longrightarrow> get_gt_pred_match md g = Some p \<longleftrightarrow> (g, p) \<in> set (mapping md)"
  unfolding one_to_one_def get_gt_pred_match_def by (rule find_fst_distinct) simp

lemma one_to_one_pred_gt:
  "one_to_one (mapping md) \<Longrightarrow> get_pred_gt_match md p = Some g \<longleftrightarrow> (g, p) \<in> set (mapping md)"
  unfolding one_to_one_def get_pred_gt_match_def by (rule find_snd_distinct) simp

lemma one_to_one_inverse:
  "one_to_one (mapping md) \<Longrightarrow> get_gt_pred_match md g = Some p \<longleftrightarrow> get_pred_gt_match md p = Some g"
  by (simp add: one_to_one_gt_pred one_to_one_pred_gt)

lemma one_to_one_same_partner:
  "one_to_one (mapping md) \<Longrightarrow> get_gt_pred_match md g = Some p \<Longrightarrow>
   get_gt_pred_match md g' = Some p \<Longrightarrow> g' = g"
  by (simp add: one_to_one_inverse)

text \<open>
  Under a one-to-one mapping, mapping the predicted daughters back and comparing with the
  ground-truth daughters is the same test as mapping the ground-truth daughters forward
  and comparing with the predicted daughters.
\<close>

lemma daughters_compare_forward:
  assumes oo: "one_to_one (mapping md)"
    and eq: "mset (map Some ds) = mset (map (get_pred_gt_match md) es)"
  shows "mset (map (get_gt_pred_match md) ds) = mset (map Some es)"
proof -
  let ?to_pred = "\<lambda>x. case x of None \<Rightarrow> None | Some d \<Rightarrow> get_gt_pred_match md d"
  have all: "\<And>e. e \<in> set es \<Longrightarrow> \<exists>d. get_pred_gt_match md e = Some d"
  proof -
    fix e assume "e \<in> set es"
    then have "get_pred_gt_match md e \<in># mset (map (get_pred_gt_match md) es)" by simp
    with eq have "get_pred_gt_match md e \<in># mset (map Some ds)" by simp
    then show "\<exists>d. get_pred_gt_match md e = Some d" by auto
  qed
  have "mset (map (get_gt_pred_match md) ds) = image_mset ?to_pred (mset (map Some ds))"
    by (simp add: multiset.map_comp comp_def)
  also have "\<dots> = image_mset ?to_pred (mset (map (get_pred_gt_match md) es))"
    by (simp only: eq)
  also have "\<dots> = image_mset (\<lambda>e. ?to_pred (get_pred_gt_match md e)) (mset es)"
    by (simp add: multiset.map_comp comp_def)
  also have "\<dots> = image_mset Some (mset es)"
  proof (rule image_mset_cong)
    fix e assume "e \<in># mset es"
    then obtain d where d: "get_pred_gt_match md e = Some d" using all by auto
    with oo have "get_gt_pred_match md d = Some e" by (simp add: one_to_one_inverse)
    with d show "?to_pred (get_pred_gt_match md e) = Some e" by simp
  qed
  finally show ?thesis by simp
qed

lemma daughters_compare_backward:
  assumes oo: "one_to_one (mapping md)"
    and eq: "mset (map (get_gt_pred_match md) ds) = mset (map Some es)"
  shows "mset (map Some ds) = mset (map (get_pred_gt_match md) es)"
proof -
  let ?to_gt = "\<lambda>x. case x of None \<Rightarrow> None | Some e \<Rightarrow> get_pred_gt_match md e"
  have all: "\<And>d. d \<in> set ds \<Longrightarrow> \<exists>e. get_gt_pred_match md d = Some e"
  proof -
    fix d assume "d \<in> set ds"
    then have "get_gt_pred_match md d \<in># mset (map (get_gt_pred_match md) ds)" by simp
    with eq have "get_gt_pred_match md d \<in># mset (map Some es)" by simp
    then show "\<exists>e. get_gt_pred_match md d = Some e" by auto
  qed
  have "mset (map (get_pred_gt_match md) es) = image_mset ?to_gt (mset (map Some es))"
    by (simp add: multiset.map_comp comp_def)
  also have "\<dots> = image_mset ?to_gt (mset (map (get_gt_pred_match md) ds))"
    by (simp only: eq)
  also have "\<dots> = image_mset (\<lambda>d. ?to_gt (get_gt_pred_match md d)) (mset ds)"
    by (simp add: multiset.map_comp comp_def)
  also have "\<dots> = image_mset Some (mset ds)"
  proof (rule image_mset_cong)
    fix d assume "d \<in># mset ds"
    then obtain e where e: "get_gt_pred_match md d = Some e" using all by auto
    with oo have "get_pred_gt_match md e = Some d" by (simp add: one_to_one_inverse)
    with e show "?to_gt (get_gt_pred_match md d) = Some d" by simp
  qed
  finally show ?thesis by simp
qed

lemma daughters_compare_iff:
  "one_to_one (mapping md) \<Longrightarrow>
   Counter (map Some ds) = Counter (map (get_pred_gt_match md) es) \<longleftrightarrow>
   Counter (map (get_gt_pred_match md) ds) = Counter (map Some es)"
  unfolding Counter_def
  using daughters_compare_forward daughters_compare_backward by blast


lemma classify_gt_node_structure:
  "mapping (fst (classify_gt_node (md, dp) a)) = mapping md"
  "edges (gt_graph (fst (classify_gt_node (md, dp) a))) = edges (gt_graph md)"
  "edges (pred_graph (fst (classify_gt_node (md, dp) a))) = edges (pred_graph md)"
  by (cases md a dp rule: classify_gt_node_cases; simp)+

lemma division_verdict_cong:
  assumes "mapping md' = mapping md" "edges (gt_graph md') = edges (gt_graph md)"
    "edges (pred_graph md') = edges (pred_graph md)"
  shows "division_verdict md' g p = division_verdict md g p"
proof -
  have "get_pred_gt_match md' = get_pred_gt_match md"
    using assms(1) by (simp add: get_pred_gt_match_def fun_eq_iff)
  moreover have "successors (gt_graph md') = successors (gt_graph md)"
    using assms(2) by (simp add: successors_def fun_eq_iff)
  moreover have "successors (pred_graph md') = successors (pred_graph md)"
    using assms(3) by (simp add: successors_def fun_eq_iff)
  ultimately show ?thesis by (simp add: division_verdict_def)
qed

lemma classify_loop_division:
  assumes "one_to_one (mapping md)" "distinct gs" "g \<in> set gs"
    "get_gt_pred_match md g = Some p" "p \<in> set dp" "distinct dp"
  shows "gt_flags (fst (foldl classify_gt_node (md, dp) gs)) g =
           insert (division_verdict md g p) (gt_flags md g) \<and>
         pred_flags (fst (foldl classify_gt_node (md, dp) gs)) p =
           insert (division_verdict md g p) (pred_flags md p) \<and>
         p \<notin> set (snd (foldl classify_gt_node (md, dp) gs))"
  using assms
proof (induction gs arbitrary: md dp)
  case Nil
  then show ?case by simp
next
  case (Cons a gs)
  obtain md' dp' where st': "classify_gt_node (md, dp) a = (md', dp')"
    by (cases "classify_gt_node (md, dp) a")
  note struct = classify_gt_node_structure [of md dp a, unfolded st', simplified]
  have m: "get_gt_pred_match md' = get_gt_pred_match md"
    by (rule get_gt_pred_match_cong) (rule struct)
  have v: "division_verdict md' g p = division_verdict md g p"
    by (rule division_verdict_cong) (rule struct)+
  have oo': "one_to_one (mapping md')" using Cons.prems(1) struct by simp
  have loop: "foldl classify_gt_node (md, dp) (a # gs) = foldl classify_gt_node (md', dp') gs"
    by (rule classify_loop_step [OF st'])
  show ?case
  proof (cases "a = g")
    case True
    from Cons.prems(2) True have notin: "g \<notin> set gs" by simp
    from classify_gt_node_division [OF Cons.prems(4,5)] st' True
    have md': "md' = set_pred_flag (set_gt_flag md g (division_verdict md g p)) p (division_verdict md g p)"
      and dp': "dp' = remove1 p dp" by simp_all
    have later: "list_all (\<lambda>g'. get_gt_pred_match md' g' \<noteq> Some p) gs"
      unfolding list_all_iff
    proof
      fix g' assume g': "g' \<in> set gs"
      show "get_gt_pred_match md' g' \<noteq> Some p"
      proof
        assume "get_gt_pred_match md' g' = Some p"
        with m have "get_gt_pred_match md g' = Some p" by simp
        from one_to_one_same_partner [OF Cons.prems(1) Cons.prems(4) this] g' notin
        show False by simp
      qed
    qed
    from Cons.prems(6) dp' have gone: "p \<notin> set dp'" by simp
    from classify_loop_gt_other [OF notin, of md' dp'] classify_loop_pred_other [OF later, of dp']
      md' gone loop
    show ?thesis by simp
  next
    case False
    with Cons.prems(2,3) have g: "g \<in> set gs" and d: "distinct gs" by auto
    have "get_gt_pred_match md a \<noteq> Some p"
      using one_to_one_same_partner [OF Cons.prems(1) Cons.prems(4), of a] False by auto
    from classify_gt_node_pred_other [OF this, of dp] st' Cons.prems(5)
    have p: "pred_flags md' p = pred_flags md p" "p \<in> set dp'" by simp_all
    from False have "g \<noteq> a" by simp
    from classify_gt_node_gt_flags_other [OF this, of md dp] st'
    have f: "gt_flags md' g = gt_flags md g" by simp
    from classify_gt_node_working_distinct [OF Cons.prems(6), of md a] st'
    have dd: "distinct dp'" by simp
    from Cons.prems(4) m have "get_gt_pred_match md' g = Some p" by simp
    from Cons.IH [OF oo' d g this p(2) dd] v f p(1) loop
    show ?thesis by simp
  qed
qed

lemma get_divisions_distinct: "distinct (node_ids g) \<Longrightarrow> distinct (get_divisions g)"
  by (simp add: get_divisions_def)

lemma set_division_annotations_done:
  "division_annotations (gt_graph (set_division_annotations md)) \<and>
   division_annotations (pred_graph (set_division_annotations md))"
  by (simp add: set_division_annotations_def)

lemma working_div_pred_unconsumed:
  assumes "p \<in> set (get_divisions (pred_graph md))"
    and "list_all (\<lambda>g. get_gt_pred_match md g \<noteq> Some p) (get_divisions (gt_graph md))"
  shows "p \<in> set (working_div_pred md)"
  using classify_loop_pred_other [OF assms(2), of "get_divisions (pred_graph md)"] assms(1)
  by (simp add: working_div_pred_def classify_gt_loop_def)

section \<open>Properties of the corrector\<close>

lemma same_lineages_refl [simp]: "same_lineages md md"
  by (simp add: same_lineages_def)

lemma same_lineages_trans:
  "same_lineages a b \<Longrightarrow> same_lineages b c \<Longrightarrow> same_lineages a c"
  by (simp add: same_lineages_def)

lemma record_correction_same_lineages: "same_lineages md (record_correction md n fp fn)"
  by (simp add: same_lineages_def record_correction_def set_min_buffer_correct_def
      gt_frame_def pred_frame_def gt_flags_def pred_flags_def fun_eq_iff)

lemma pred_buffer_record_correction:
  "pred_buffer (record_correction md n fp fn) x =
     (if x = fp then Some (Buffer n) else pred_buffer md x)"
  by (simp add: pred_buffer_def record_correction_def set_min_buffer_correct_def)

lemma gt_buffer_record_correction:
  "gt_buffer (record_correction md n fp fn) x =
     (if x = fn then Some (Buffer n) else gt_buffer md x)"
  by (simp add: gt_buffer_def record_correction_def set_min_buffer_correct_def)

lemma get_pred_by_t_cong: "edges g' = edges g \<Longrightarrow> get_pred_by_t g' x k = get_pred_by_t g x k"
  by (induction g x k rule: get_pred_by_t.induct) (simp_all add: predecessors_def split: list.splits)

lemma get_succ_by_t_cong: "edges g' = edges g \<Longrightarrow> get_succ_by_t g' x k = get_succ_by_t g x k"
  by (induction g x k rule: get_succ_by_t.induct) (simp_all add: successors_def split: list.splits)

lemma compare_lineages_cong:
  assumes "same_lineages md md'"
  shows "compare_lineages md' fp fn = compare_lineages md fp fn"
proof -
  from assms have m: "mapping md' = mapping md"
    and eg: "edges (gt_graph md') = edges (gt_graph md)"
    and ep: "edges (pred_graph md') = edges (pred_graph md)"
    and fg: "frame (attrs (gt_graph md') fn) = frame (attrs (gt_graph md) fn)"
    and fp: "frame (attrs (pred_graph md') fp) = frame (attrs (pred_graph md) fp)"
    by (simp_all add: same_lineages_def gt_frame_def pred_frame_def fun_eq_iff)
  have 1: "get_gt_pred_match md' = get_gt_pred_match md"
    "get_pred_gt_match md' = get_pred_gt_match md"
    "in_mapper md' = in_mapper md"
    using m by (simp_all add: get_gt_pred_match_def get_pred_gt_match_def in_mapper_def fun_eq_iff
        split: option.splits)
  have 2: "successors (gt_graph md') = successors (gt_graph md)"
    "successors (pred_graph md') = successors (pred_graph md)"
    using eg ep by (simp_all add: successors_def fun_eq_iff)
  have 3: "get_pred_by_t (gt_graph md') = get_pred_by_t (gt_graph md)"
    "get_pred_by_t (pred_graph md') = get_pred_by_t (pred_graph md)"
    "get_succ_by_t (gt_graph md') = get_succ_by_t (gt_graph md)"
    "get_succ_by_t (pred_graph md') = get_succ_by_t (pred_graph md)"
    using get_pred_by_t_cong [OF eg] get_pred_by_t_cong [OF ep]
      get_succ_by_t_cong [OF eg] get_succ_by_t_cong [OF ep]
    by (simp_all only: fun_eq_iff) simp_all
  show ?thesis
    unfolding compare_lineages_def Let_def by (simp only: 1 2 3 fg fp)
qed


lemma is_corrected_buffer:
  "is_corrected a \<longleftrightarrow> (\<exists>b. min_buffer_correct a = Some (Buffer b))"
  by (auto simp: is_corrected_def split: option.splits buffer_attr.splits)

lemma shifted_pair_correct_unfold:
  "shifted_pair_correct md n fp fn =
     (if pred_resolved md fp \<or> gt_resolved md fn then Inr False
      else if \<bar>pred_frame md fp - gt_frame md fn\<bar> > n \<or> pred_frame md fp = gt_frame md fn
      then Inr False
      else compare_lineages md fp fn)"
  by (simp add: shifted_pair_correct_def Let_def pred_resolved_def gt_resolved_def
      pred_frame_def gt_frame_def)

lemma resolved_iff:
  "pred_resolved md x \<longleftrightarrow> (\<exists>b. pred_buffer md x = Some (Buffer b))"
  "gt_resolved md x \<longleftrightarrow> (\<exists>b. gt_buffer md x = Some (Buffer b))"
  by (simp_all add: pred_resolved_def gt_resolved_def pred_buffer_def gt_buffer_def
      is_corrected_buffer)

lemma resolved_record_correction:
  "pred_resolved (record_correction md n fp fn) x \<longleftrightarrow> x = fp \<or> pred_resolved md x"
  "gt_resolved (record_correction md n fp fn) x \<longleftrightarrow> x = fn \<or> gt_resolved md x"
  by (auto simp: resolved_iff pred_buffer_record_correction gt_buffer_record_correction)

text \<open>One iteration of the loop, as a function of the state.\<close>

lemma correct_pairs_Cons:
  "correct_pairs n md ((fp, fn) # rest) =
     (case shifted_pair_correct md n fp fn of
        Inl e \<Rightarrow> Inl e
      | Inr c \<Rightarrow> correct_pairs n (if c then record_correction md n fp fn else md) rest)"
  by simp

lemma correct_pairs_same_lineages:
  "correct_pairs n md prs = Inr md' \<Longrightarrow> same_lineages md md'"
proof (induction prs arbitrary: md)
  case Nil
  then show ?case by simp
next
  case (Cons pr prs)
  obtain fp fn where pr: "pr = (fp, fn)" by (cases pr)
  from Cons.prems pr obtain c where c: "shifted_pair_correct md n fp fn = Inr c"
    and rest: "correct_pairs n (if c then record_correction md n fp fn else md) prs = Inr md'"
    by (auto split: sum.splits)
  have "same_lineages md (if c then record_correction md n fp fn else md)"
    by (simp add: record_correction_same_lineages)
  from same_lineages_trans [OF this Cons.IH [OF rest]] show ?case .
qed

text \<open>A pass keeps every buffer that is already recorded, and writes nothing but its own.\<close>

lemma correct_pairs_pred_buffer:
  "correct_pairs n md prs = Inr md' \<Longrightarrow>
   pred_buffer md' x = pred_buffer md x \<or>
   (\<not> pred_resolved md x \<and> pred_buffer md' x = Some (Buffer n))"
proof (induction prs arbitrary: md)
  case Nil
  then show ?case by simp
next
  case (Cons pr prs)
  obtain fp fn where pr: "pr = (fp, fn)" by (cases pr)
  from Cons.prems pr obtain c where c: "shifted_pair_correct md n fp fn = Inr c"
    and rest: "correct_pairs n (if c then record_correction md n fp fn else md) prs = Inr md'"
    by (auto split: sum.splits)
  show ?case
  proof (cases c)
    case False
    with Cons.IH [of md] rest show ?thesis by simp
  next
    case True
    with c have un: "\<not> pred_resolved md fp"
      by (auto simp: shifted_pair_correct_unfold split: if_splits)
    from True rest Cons.IH [of "record_correction md n fp fn"]
    have "pred_buffer md' x = pred_buffer (record_correction md n fp fn) x \<or>
          (\<not> pred_resolved (record_correction md n fp fn) x \<and> pred_buffer md' x = Some (Buffer n))"
      by simp
    with un show ?thesis
      by (auto simp: pred_buffer_record_correction resolved_record_correction split: if_splits)
  qed
qed

lemma correct_pairs_gt_buffer:
  "correct_pairs n md prs = Inr md' \<Longrightarrow>
   gt_buffer md' x = gt_buffer md x \<or>
   (\<not> gt_resolved md x \<and> gt_buffer md' x = Some (Buffer n))"
proof (induction prs arbitrary: md)
  case Nil
  then show ?case by simp
next
  case (Cons pr prs)
  obtain fp fn where pr: "pr = (fp, fn)" by (cases pr)
  from Cons.prems pr obtain c where c: "shifted_pair_correct md n fp fn = Inr c"
    and rest: "correct_pairs n (if c then record_correction md n fp fn else md) prs = Inr md'"
    by (auto split: sum.splits)
  show ?case
  proof (cases c)
    case False
    with Cons.IH [of md] rest show ?thesis by simp
  next
    case True
    with c have un: "\<not> gt_resolved md fn"
      by (auto simp: shifted_pair_correct_unfold split: if_splits)
    from True rest Cons.IH [of "record_correction md n fp fn"]
    have "gt_buffer md' x = gt_buffer (record_correction md n fp fn) x \<or>
          (\<not> gt_resolved (record_correction md n fp fn) x \<and> gt_buffer md' x = Some (Buffer n))"
      by simp
    with un show ?thesis
      by (auto simp: gt_buffer_record_correction resolved_record_correction split: if_splits)
  qed
qed

lemma correct_shifted_divisions_pairs:
  "correct_shifted_divisions md n = correct_pairs n md (fp_fn_pairs md)"
  by (simp add: correct_shifted_divisions_def fp_fn_pairs_def fp_divs_def fn_divs_def)

lemma fp_fn_divs_cong:
  "same_lineages md md' \<Longrightarrow> fp_divs md' = fp_divs md"
  "same_lineages md md' \<Longrightarrow> fn_divs md' = fn_divs md"
  by (simp_all add: fp_divs_def fn_divs_def get_nodes_with_flag_def same_lineages_def
      gt_flags_def pred_flags_def fun_eq_iff)

lemma fp_fn_pairs_cong: "same_lineages md md' \<Longrightarrow> fp_fn_pairs md' = fp_fn_pairs md"
  by (simp add: fp_fn_pairs_def fp_fn_divs_cong)

subsection \<open>The predecessor walk\<close>

lemma get_pred_by_t_merge:
  "j < k \<Longrightarrow> get_pred_by_t g x j = Inr (Some y) \<Longrightarrow> 1 < length (predecessors g y) \<Longrightarrow>
   get_pred_by_t g x k = Inl ValueError_merges"
proof (induction j arbitrary: x k)
  case 0
  then obtain k' where "k = Suc k'" by (cases k) auto
  with 0 show ?case by (auto split: list.splits)
next
  case (Suc j)
  then obtain k' where k: "k = Suc k'" "j < k'" by (cases k) auto
  from Suc.prems(2) obtain p where p: "predecessors g x = [p]"
    and walk: "get_pred_by_t g p j = Inr (Some y)"
    by (auto split: list.splits)
  from Suc.IH [OF k(2) walk Suc.prems(3)] p k show ?case by simp
qed

lemma get_pred_by_t_error:
  "get_pred_by_t g x k = Inl e \<Longrightarrow>
   e = ValueError_merges \<and>
   (\<exists>j y. j < k \<and> get_pred_by_t g x j = Inr (Some y) \<and> 1 < length (predecessors g y))"
proof (induction k arbitrary: x)
  case 0
  then show ?case by simp
next
  case (Suc k)
  show ?case
  proof (cases "predecessors g x")
    case Nil
    with Suc.prems show ?thesis by simp
  next
    case (Cons p ps)
    show ?thesis
    proof (cases ps)
      case Nil
      with Cons Suc.prems have "get_pred_by_t g p k = Inl e" by simp
      from Suc.IH [OF this] obtain j y where e: "e = ValueError_merges" and j: "j < k"
        and w: "get_pred_by_t g p j = Inr (Some y)" and m: "1 < length (predecessors g y)"
        by blast
      from w Cons Nil have "get_pred_by_t g x (Suc j) = Inr (Some y)" by simp
      with e j m show ?thesis by (intro conjI exI [of _ "Suc j"] exI [of _ y]) simp_all
    next
      case (Cons q qs)
      with \<open>predecessors g x = p # ps\<close> Suc.prems have "e = ValueError_merges" by simp
      moreover have "get_pred_by_t g x 0 = Inr (Some x)" by simp
      moreover have "1 < length (predecessors g x)"
        using Cons \<open>predecessors g x = p # ps\<close> by simp
      ultimately show ?thesis by (intro conjI exI [of _ 0] exI [of _ x]) simp_all
    qed
  qed
qed

lemma compare_lineages_error:
  "compare_lineages md fp fn = Inl e \<longleftrightarrow> walk_back md fp fn = Inl e"
  by (simp add: compare_lineages_def walk_back_def Let_def pred_frame_def gt_frame_def
      split: sum.splits)

lemma walk_back_cong: "same_lineages md md' \<Longrightarrow> walk_back md' fp fn = walk_back md fp fn"
  using get_pred_by_t_cong [of "gt_graph md'" "gt_graph md"]
    get_pred_by_t_cong [of "pred_graph md'" "pred_graph md"]
  by (simp add: walk_back_def same_lineages_def)

lemma correct_pairs_resolved_mono:
  assumes "correct_pairs n md prs = Inr md'"
  shows "pred_resolved md x \<Longrightarrow> pred_resolved md' x"
    and "gt_resolved md y \<Longrightarrow> gt_resolved md' y"
  using correct_pairs_pred_buffer [OF assms, of x] correct_pairs_gt_buffer [OF assms, of y]
  by (auto simp: resolved_iff)

lemma shifted_pair_correct_error:
  "shifted_pair_correct s n u v = Inl e \<Longrightarrow> e = ValueError_merges"
proof -
  assume "shifted_pair_correct s n u v = Inl e"
  then have "compare_lineages s u v = Inl e"
    by (auto simp: shifted_pair_correct_unfold split: if_splits)
  then have "walk_back s u v = Inl e" by (simp add: compare_lineages_error)
  then show "e = ValueError_merges"
    using get_pred_by_t_error by (auto simp: walk_back_def split: if_splits)
qed

lemma correct_pairs_error:
  "correct_pairs n s ps = Inl e \<Longrightarrow> e = ValueError_merges"
proof (induction ps arbitrary: s)
  case Nil
  then show ?case by simp
next
  case (Cons q qs)
  obtain u v where q: "q = (u, v)" by (cases q)
  show ?case
  proof (cases "shifted_pair_correct s n u v")
    case (Inl e')
    with Cons.prems q shifted_pair_correct_error [OF Inl] show ?thesis by simp
  next
    case (Inr c')
    with Cons.prems q Cons.IH show ?thesis by simp
  qed
qed

text \<open>A pair whose walk meets a merge stops the pass, unless a guard skips the pair.\<close>

lemma correct_pairs_merge:
  assumes "(fp, fn) \<in> set prs"
    and "0 < \<bar>pred_frame md fp - gt_frame md fn\<bar>" "\<bar>pred_frame md fp - gt_frame md fn\<bar> \<le> n"
    and "walk_back md fp fn = Inl ValueError_merges"
  shows "case correct_pairs n md prs of
           Inl e \<Rightarrow> e = ValueError_merges
         | Inr md' \<Rightarrow> pred_resolved md' fp \<or> gt_resolved md' fn"
  using assms
proof (induction prs arbitrary: md)
  case Nil
  then show ?case by simp
next
  case (Cons pr prs)
  obtain a b where pr: "pr = (a, b)" by (cases pr)
  show ?case
  proof (cases "shifted_pair_correct md n a b")
    case (Inl e)
    from shifted_pair_correct_error [OF Inl] have "e = ValueError_merges" .
    with Inl pr show ?thesis by simp
  next
    case (Inr c)
    let ?md1 = "if c then record_correction md n a b else md"
    have sl: "same_lineages md ?md1" by (simp add: record_correction_same_lineages)
    then have fr: "pred_frame ?md1 = pred_frame md" "gt_frame ?md1 = gt_frame md"
      by (simp_all add: same_lineages_def)
    have step: "correct_pairs n md (pr # prs) = correct_pairs n ?md1 prs"
      using Inr pr by simp
    show ?thesis
    proof (cases "(fp, fn) = (a, b)")
      case True
      from Cons.prems(4) have "compare_lineages md fp fn = Inl ValueError_merges"
        by (simp add: compare_lineages_error)
      with True Inr Cons.prems(2,3) have "pred_resolved md fp \<or> gt_resolved md fn"
        by (auto simp: shifted_pair_correct_unfold split: if_splits)
      then have res: "pred_resolved ?md1 fp \<or> gt_resolved ?md1 fn"
        by (auto simp: resolved_record_correction)
      show ?thesis
      proof (cases "correct_pairs n ?md1 prs")
        case (Inl e)
        from correct_pairs_error [OF Inl] Inl step show ?thesis by simp
      next
        case (Inr md')
        from correct_pairs_resolved_mono [OF Inr] res
        have "pred_resolved md' fp \<or> gt_resolved md' fn" by blast
        with Inr step show ?thesis by simp
      qed
    next
      case False
      with Cons.prems(1) pr have mem: "(fp, fn) \<in> set prs" by auto
      have w: "walk_back ?md1 fp fn = Inl ValueError_merges"
        using walk_back_cong [OF sl] Cons.prems(4) by simp
      from Cons.IH [OF mem _ _ w] Cons.prems(2,3) fr step show ?thesis by simp
    qed
  qed
qed

subsection \<open>One pass attributes each node at most once\<close>

lemma corrected_pairs_unresolved:
  "(fp, fn) \<in> set (corrected_pairs n md prs) \<Longrightarrow> \<not> pred_resolved md fp \<and> \<not> gt_resolved md fn"
proof (induction prs arbitrary: md)
  case Nil
  then show ?case by simp
next
  case (Cons pr prs)
  obtain a b where pr: "pr = (a, b)" by (cases pr)
  show ?case
  proof (cases "shifted_pair_correct md n a b")
    case (Inl e)
    with Cons.prems pr show ?thesis by simp
  next
    case (Inr c)
    show ?thesis
    proof (cases c)
      case False
      with Inr Cons.prems pr Cons.IH show ?thesis by simp
    next
      case True
      with Inr have head: "\<not> pred_resolved md a \<and> \<not> gt_resolved md b"
        by (auto simp: shifted_pair_correct_unfold split: if_splits)
      from True Inr Cons.prems pr
      have "(fp, fn) = (a, b) \<or>
            (fp, fn) \<in> set (corrected_pairs n (record_correction md n a b) prs)"
        by simp
      then show ?thesis
      proof
        assume "(fp, fn) = (a, b)"
        with head show ?thesis by simp
      next
        assume "(fp, fn) \<in> set (corrected_pairs n (record_correction md n a b) prs)"
        from Cons.IH [OF this] show ?thesis by (simp add: resolved_record_correction)
      qed
    qed
  qed
qed

lemma corrected_pairs_distinct:
  "distinct (map fst (corrected_pairs n md prs)) \<and> distinct (map snd (corrected_pairs n md prs))"
proof (induction prs arbitrary: md)
  case Nil
  then show ?case by simp
next
  case (Cons pr prs)
  obtain a b where pr: "pr = (a, b)" by (cases pr)
  show ?case
  proof (cases "shifted_pair_correct md n a b")
    case (Inl e)
    with pr show ?thesis by simp
  next
    case (Inr c)
    show ?thesis
    proof (cases c)
      case False
      with Inr pr Cons.IH show ?thesis by simp
    next
      case True
      let ?md1 = "record_correction md n a b"
      have "a \<notin> fst ` set (corrected_pairs n ?md1 prs)"
        using corrected_pairs_unresolved [of a _ n ?md1 prs]
        by (auto simp: resolved_record_correction)
      moreover have "b \<notin> snd ` set (corrected_pairs n ?md1 prs)"
        using corrected_pairs_unresolved [of _ b n ?md1 prs]
        by (auto simp: resolved_record_correction)
      ultimately show ?thesis using True Inr pr Cons.IH [of ?md1] by simp
    qed
  qed
qed

lemma corrected_pairs_subset: "set (corrected_pairs n md prs) \<subseteq> set prs"
proof (induction prs arbitrary: md)
  case Nil
  then show ?case by simp
next
  case (Cons pr prs)
  obtain a b where pr: "pr = (a, b)" by (cases pr)
  show ?case
  proof (cases "shifted_pair_correct md n a b")
    case (Inl e)
    with pr show ?thesis by simp
  next
    case (Inr c)
    with pr Cons.IH [of md] Cons.IH [of "record_correction md n a b"] show ?thesis
      by (cases c) auto
  qed
qed

text \<open>The buffers after a pass are the buffers before it, overwritten at the pairs of the run.\<close>

lemma correct_pairs_buffers:
  "correct_pairs n md prs = Inr md' \<Longrightarrow>
   pred_buffer md' x =
     (if x \<in> fst ` set (corrected_pairs n md prs) then Some (Buffer n) else pred_buffer md x) \<and>
   gt_buffer md' y =
     (if y \<in> snd ` set (corrected_pairs n md prs) then Some (Buffer n) else gt_buffer md y)"
proof (induction prs arbitrary: md)
  case Nil
  then show ?case by simp
next
  case (Cons pr prs)
  obtain a b where pr: "pr = (a, b)" by (cases pr)
  from Cons.prems pr obtain c where c: "shifted_pair_correct md n a b = Inr c"
    and rest: "correct_pairs n (if c then record_correction md n a b else md) prs = Inr md'"
    by (auto split: sum.splits)
  show ?case
  proof (cases c)
    case False
    with c rest pr Cons.IH [of md] show ?thesis by simp
  next
    case True
    with rest have "correct_pairs n (record_correction md n a b) prs = Inr md'" by simp
    from Cons.IH [OF this] True c pr show ?thesis
      by (auto simp: pred_buffer_record_correction gt_buffer_record_correction)
  qed
qed

subsection \<open>What a pass writes, and what it cannot leave unresolved\<close>

lemma correct_pairs_written:
  assumes "correct_pairs n md prs = Inr md'"
    and "\<not> pred_resolved md x" "pred_resolved md' x"
  shows "\<exists>y. (x, y) \<in> set prs \<and> \<not> gt_resolved md y \<and>
             gt_buffer md' y = Some (Buffer n) \<and> pred_buffer md' x = Some (Buffer n) \<and>
             0 < \<bar>pred_frame md x - gt_frame md y\<bar> \<and> \<bar>pred_frame md x - gt_frame md y\<bar> \<le> n \<and>
             compare_lineages md x y = Inr True"
  using assms
proof (induction prs arbitrary: md)
  case Nil
  then show ?case by simp
next
  case (Cons pr prs)
  obtain a b where pr: "pr = (a, b)" by (cases pr)
  from Cons.prems(1) pr obtain c where c: "shifted_pair_correct md n a b = Inr c"
    and rest: "correct_pairs n (if c then record_correction md n a b else md) prs = Inr md'"
    by (auto split: sum.splits)
  let ?md1 = "if c then record_correction md n a b else md"
  have sl: "same_lineages md ?md1" by (simp add: record_correction_same_lineages)
  then have fr: "pred_frame ?md1 = pred_frame md" "gt_frame ?md1 = gt_frame md"
    by (simp_all add: same_lineages_def)
  show ?case
  proof (cases "c \<and> a = x")
    case True
    with c have chk: "\<not> gt_resolved md b" "0 < \<bar>pred_frame md x - gt_frame md b\<bar>"
      "\<bar>pred_frame md x - gt_frame md b\<bar> \<le> n" "compare_lineages md x b = Inr True"
      by (auto simp: shifted_pair_correct_unfold split: if_splits)
    from True have "pred_resolved ?md1 x" "gt_resolved ?md1 b"
      "pred_buffer ?md1 x = Some (Buffer n)" "gt_buffer ?md1 b = Some (Buffer n)"
      by (simp_all add: resolved_record_correction pred_buffer_record_correction
          gt_buffer_record_correction)
    with correct_pairs_pred_buffer [OF rest, of x] correct_pairs_gt_buffer [OF rest, of b]
    have "pred_buffer md' x = Some (Buffer n)" "gt_buffer md' b = Some (Buffer n)"
      by auto
    with chk True pr show ?thesis by (intro exI [of _ b]) simp
  next
    case False
    with Cons.prems(2) have un: "\<not> pred_resolved ?md1 x"
      by (auto simp: resolved_record_correction)
    from Cons.IH [OF rest un Cons.prems(3)] obtain y where y: "(x, y) \<in> set prs"
      "\<not> gt_resolved ?md1 y" "gt_buffer md' y = Some (Buffer n)"
      "pred_buffer md' x = Some (Buffer n)"
      "0 < \<bar>pred_frame ?md1 x - gt_frame ?md1 y\<bar>" "\<bar>pred_frame ?md1 x - gt_frame ?md1 y\<bar> \<le> n"
      "compare_lineages ?md1 x y = Inr True"
      by blast
    from y(2) have "\<not> gt_resolved md y" by (auto simp: resolved_record_correction split: if_splits)
    moreover from y(7) compare_lineages_cong [OF sl] have "compare_lineages md x y = Inr True"
      by simp
    ultimately show ?thesis using y fr by (intro exI [of _ y]) simp
  qed
qed

lemma correct_pairs_written_gt:
  assumes "correct_pairs n md prs = Inr md'"
    and "\<not> gt_resolved md y" "gt_resolved md' y"
  shows "\<exists>x. (x, y) \<in> set prs \<and> \<not> pred_resolved md x \<and>
             pred_buffer md' x = Some (Buffer n) \<and> gt_buffer md' y = Some (Buffer n) \<and>
             0 < \<bar>pred_frame md x - gt_frame md y\<bar> \<and> \<bar>pred_frame md x - gt_frame md y\<bar> \<le> n \<and>
             compare_lineages md x y = Inr True"
  using assms
proof (induction prs arbitrary: md)
  case Nil
  then show ?case by simp
next
  case (Cons pr prs)
  obtain a b where pr: "pr = (a, b)" by (cases pr)
  from Cons.prems(1) pr obtain c where c: "shifted_pair_correct md n a b = Inr c"
    and rest: "correct_pairs n (if c then record_correction md n a b else md) prs = Inr md'"
    by (auto split: sum.splits)
  let ?md1 = "if c then record_correction md n a b else md"
  have sl: "same_lineages md ?md1" by (simp add: record_correction_same_lineages)
  then have fr: "pred_frame ?md1 = pred_frame md" "gt_frame ?md1 = gt_frame md"
    by (simp_all add: same_lineages_def)
  show ?case
  proof (cases "c \<and> b = y")
    case True
    with c have chk: "\<not> pred_resolved md a" "0 < \<bar>pred_frame md a - gt_frame md y\<bar>"
      "\<bar>pred_frame md a - gt_frame md y\<bar> \<le> n" "compare_lineages md a y = Inr True"
      by (auto simp: shifted_pair_correct_unfold split: if_splits)
    from True have "pred_resolved ?md1 a" "gt_resolved ?md1 y"
      "pred_buffer ?md1 a = Some (Buffer n)" "gt_buffer ?md1 y = Some (Buffer n)"
      by (simp_all add: resolved_record_correction pred_buffer_record_correction
          gt_buffer_record_correction)
    with correct_pairs_pred_buffer [OF rest, of a] correct_pairs_gt_buffer [OF rest, of y]
    have "pred_buffer md' a = Some (Buffer n)" "gt_buffer md' y = Some (Buffer n)"
      by auto
    with chk True pr show ?thesis by (intro exI [of _ a]) simp
  next
    case False
    with Cons.prems(2) have un: "\<not> gt_resolved ?md1 y"
      by (auto simp: resolved_record_correction)
    from Cons.IH [OF rest un Cons.prems(3)] obtain x where x: "(x, y) \<in> set prs"
      "\<not> pred_resolved ?md1 x" "pred_buffer md' x = Some (Buffer n)"
      "gt_buffer md' y = Some (Buffer n)"
      "0 < \<bar>pred_frame ?md1 x - gt_frame ?md1 y\<bar>" "\<bar>pred_frame ?md1 x - gt_frame ?md1 y\<bar> \<le> n"
      "compare_lineages ?md1 x y = Inr True"
      by blast
    from x(2) have "\<not> pred_resolved md x" by (auto simp: resolved_record_correction split: if_splits)
    moreover from x(7) compare_lineages_cong [OF sl] have "compare_lineages md x y = Inr True"
      by simp
    ultimately show ?thesis using x fr by (intro exI [of _ x]) simp
  qed
qed

text \<open>After a pass, no pair that it could reconcile has both nodes unresolved.\<close>

lemma correct_pairs_complete:
  assumes "correct_pairs n md prs = Inr md'"
    and "(x, y) \<in> set prs"
    and "0 < \<bar>pred_frame md x - gt_frame md y\<bar>" "\<bar>pred_frame md x - gt_frame md y\<bar> \<le> n"
    and "compare_lineages md x y = Inr True"
  shows "pred_resolved md' x \<or> gt_resolved md' y"
  using assms
proof (induction prs arbitrary: md)
  case Nil
  then show ?case by simp
next
  case (Cons pr prs)
  obtain a b where pr: "pr = (a, b)" by (cases pr)
  from Cons.prems(1) pr obtain c where c: "shifted_pair_correct md n a b = Inr c"
    and rest: "correct_pairs n (if c then record_correction md n a b else md) prs = Inr md'"
    by (auto split: sum.splits)
  let ?md1 = "if c then record_correction md n a b else md"
  have sl: "same_lineages md ?md1" by (simp add: record_correction_same_lineages)
  then have fr: "pred_frame ?md1 = pred_frame md" "gt_frame ?md1 = gt_frame md"
    by (simp_all add: same_lineages_def)
  show ?case
  proof (cases "(x, y) = (a, b)")
    case True
    with c Cons.prems(3,4,5) have "pred_resolved ?md1 x \<or> gt_resolved ?md1 y"
      by (auto simp: shifted_pair_correct_unfold resolved_record_correction split: if_splits)
    with correct_pairs_resolved_mono [OF rest] show ?thesis by blast
  next
    case False
    with Cons.prems(2) pr have mem: "(x, y) \<in> set prs" by auto
    have "compare_lineages ?md1 x y = Inr True"
      using compare_lineages_cong [OF sl] Cons.prems(5) by simp
    from Cons.IH [OF rest mem _ _ this] Cons.prems(3,4) fr show ?thesis by simp
  qed
qed

subsection \<open>The loop over the buffers\<close>

lemma correct_buffers_append:
  "correct_buffers md (ds @ es) =
     (case correct_buffers md ds of Inl e \<Rightarrow> Inl e | Inr m \<Rightarrow> correct_buffers m es)"
  by (induction ds arbitrary: md) (simp_all split: sum.splits)

lemma correct_buffers_single: "correct_buffers md [d] = correct_pairs d md (fp_fn_pairs md)"
  by (simp add: correct_shifted_divisions_pairs split: sum.splits)

lemma correct_buffers_same_lineages:
  "correct_buffers md ds = Inr md' \<Longrightarrow> same_lineages md md'"
proof (induction ds arbitrary: md)
  case Nil
  then show ?case by simp
next
  case (Cons d ds)
  then obtain m1 where m1: "correct_pairs d md (fp_fn_pairs md) = Inr m1"
    and rest: "correct_buffers m1 ds = Inr md'"
    by (auto simp: correct_shifted_divisions_pairs split: sum.splits)
  from same_lineages_trans [OF correct_pairs_same_lineages [OF m1] Cons.IH [OF rest]]
  show ?case .
qed

lemma correct_buffers_pred_buffer:
  "correct_buffers md ds = Inr md' \<Longrightarrow>
   pred_buffer md' x = pred_buffer md x \<or>
   (\<not> pred_resolved md x \<and> (\<exists>d. d \<in> set ds \<and> pred_buffer md' x = Some (Buffer d)))"
proof (induction ds arbitrary: md)
  case Nil
  then show ?case by simp
next
  case (Cons d ds)
  then obtain m1 where m1: "correct_pairs d md (fp_fn_pairs md) = Inr m1"
    and rest: "correct_buffers m1 ds = Inr md'"
    by (auto simp: correct_shifted_divisions_pairs split: sum.splits)
  from correct_pairs_pred_buffer [OF m1, of x] Cons.IH [OF rest]
  show ?case by (auto simp: resolved_iff)
qed

lemma correct_buffers_gt_buffer:
  "correct_buffers md ds = Inr md' \<Longrightarrow>
   gt_buffer md' y = gt_buffer md y \<or>
   (\<not> gt_resolved md y \<and> (\<exists>d. d \<in> set ds \<and> gt_buffer md' y = Some (Buffer d)))"
proof (induction ds arbitrary: md)
  case Nil
  then show ?case by simp
next
  case (Cons d ds)
  then obtain m1 where m1: "correct_pairs d md (fp_fn_pairs md) = Inr m1"
    and rest: "correct_buffers m1 ds = Inr md'"
    by (auto simp: correct_shifted_divisions_pairs split: sum.splits)
  from correct_pairs_gt_buffer [OF m1, of y] Cons.IH [OF rest]
  show ?case by (auto simp: resolved_iff)
qed

lemma correct_buffers_resolved_mono:
  assumes "correct_buffers md ds = Inr md'"
  shows "pred_resolved md x \<Longrightarrow> pred_resolved md' x"
    and "gt_resolved md y \<Longrightarrow> gt_resolved md' y"
  using correct_buffers_pred_buffer [OF assms, of x] correct_buffers_gt_buffer [OF assms, of y]
  by (auto simp: resolved_iff)

lemma correct_buffers_complete:
  assumes "correct_buffers md ds = Inr md'"
    and "d \<in> set ds" "(x, y) \<in> set (fp_fn_pairs md)"
    and "0 < \<bar>pred_frame md x - gt_frame md y\<bar>" "\<bar>pred_frame md x - gt_frame md y\<bar> \<le> d"
    and "compare_lineages md x y = Inr True"
  shows "pred_resolved md' x \<or> gt_resolved md' y"
  using assms
proof (induction ds arbitrary: md)
  case Nil
  then show ?case by simp
next
  case (Cons e ds)
  from Cons.prems(1) obtain m1 where m1: "correct_pairs e md (fp_fn_pairs md) = Inr m1"
    and rest: "correct_buffers m1 ds = Inr md'"
    by (auto simp: correct_shifted_divisions_pairs split: sum.splits)
  have sl: "same_lineages md m1" by (rule correct_pairs_same_lineages [OF m1])
  show ?case
  proof (cases "d = e")
    case True
    from correct_pairs_complete [OF m1 Cons.prems(3,4) _ Cons.prems(6)] Cons.prems(5) True
    have "pred_resolved m1 x \<or> gt_resolved m1 y" by simp
    with correct_buffers_resolved_mono [OF rest] show ?thesis by blast
  next
    case False
    with Cons.prems(2) have d: "d \<in> set ds" by simp
    have pairs: "(x, y) \<in> set (fp_fn_pairs m1)"
      using fp_fn_pairs_cong [OF sl] Cons.prems(3) by simp
    have fr: "pred_frame m1 = pred_frame md" "gt_frame m1 = gt_frame md"
      using sl by (simp_all add: same_lineages_def)
    have cmp: "compare_lineages m1 x y = Inr True"
      using compare_lineages_cong [OF sl] Cons.prems(6) by simp
    from Cons.IH [OF rest d pairs _ _ cmp] Cons.prems(4,5) fr show ?thesis by simp
  qed
qed

lemma upto_prefix: "0 \<le> k \<Longrightarrow> k \<le> m \<Longrightarrow> [1..m] = [1..k] @ [k + 1..m]"
proof (cases "k = 0")
  case True
  then show ?thesis by simp
next
  case False
  assume "0 \<le> k" "k \<le> m"
  with False have "1 \<le> k" by simp
  from upto_split2 [OF this \<open>k \<le> m\<close>] show ?thesis .
qed

lemma correct_buffers_prefix:
  assumes "correct_buffers md [1..m] = Inr md'" "0 \<le> k" "k \<le> m"
  obtains mk where "correct_buffers md [1..k] = Inr mk" "correct_buffers mk [k + 1..m] = Inr md'"
proof -
  from assms(1) upto_prefix [OF assms(2,3)]
  have "correct_buffers md ([1..k] @ [k + 1..m]) = Inr md'" by simp
  then show ?thesis
    using that by (auto simp: correct_buffers_append split: sum.splits)
qed

subsection \<open>Minimality of the recorded buffer\<close>

lemma buffers_value_at_prefix_pred:
  assumes run: "correct_buffers s [1..m] = Inr s'"
    and start: "pred_buffer s x = Some NaN"
    and final: "pred_buffer s' x = Some (Buffer v)"
    and k: "0 \<le> k" "k \<le> m"
    and pre: "correct_buffers s [1..k] = Inr sk"
  shows "pred_buffer sk x = (if k < v then Some NaN else Some (Buffer v))"
proof -
  from run upto_prefix [OF k] pre have post: "correct_buffers sk [k + 1..m] = Inr s'"
    by (simp add: correct_buffers_append)
  from correct_buffers_pred_buffer [OF pre, of x] start
  have a: "pred_buffer sk x = Some NaN \<or> (\<exists>d. 1 \<le> d \<and> d \<le> k \<and> pred_buffer sk x = Some (Buffer d))"
    by auto
  from correct_buffers_pred_buffer [OF post, of x] final
  have b: "pred_buffer sk x = Some (Buffer v) \<or>
           (\<not> pred_resolved sk x \<and> k + 1 \<le> v \<and> v \<le> m)"
    by auto
  from a b show ?thesis by (auto simp: resolved_iff)
qed

lemma buffers_value_at_prefix_gt:
  assumes run: "correct_buffers s [1..m] = Inr s'"
    and start: "gt_buffer s y = Some NaN"
    and final: "gt_buffer s' y = Some (Buffer v)"
    and k: "0 \<le> k" "k \<le> m"
    and pre: "correct_buffers s [1..k] = Inr sk"
  shows "gt_buffer sk y = (if k < v then Some NaN else Some (Buffer v))"
proof -
  from run upto_prefix [OF k] pre have post: "correct_buffers sk [k + 1..m] = Inr s'"
    by (simp add: correct_buffers_append)
  from correct_buffers_gt_buffer [OF pre, of y] start
  have a: "gt_buffer sk y = Some NaN \<or> (\<exists>d. 1 \<le> d \<and> d \<le> k \<and> gt_buffer sk y = Some (Buffer d))"
    by auto
  from correct_buffers_gt_buffer [OF post, of y] final
  have b: "gt_buffer sk y = Some (Buffer v) \<or>
           (\<not> gt_resolved sk y \<and> k + 1 \<le> v \<and> v \<le> m)"
    by auto
  from a b show ?thesis by (auto simp: resolved_iff)
qed

lemma buffers_value_range:
  assumes run: "correct_buffers s [1..m] = Inr s'"
  shows "pred_buffer s x = Some NaN \<Longrightarrow> pred_buffer s' x = Some (Buffer v) \<Longrightarrow> 1 \<le> v \<and> v \<le> m"
    and "gt_buffer s y = Some NaN \<Longrightarrow> gt_buffer s' y = Some (Buffer v) \<Longrightarrow> 1 \<le> v \<and> v \<le> m"
  using correct_buffers_pred_buffer [OF run, of x] correct_buffers_gt_buffer [OF run, of y]
  by auto

text \<open>
  The pass that records a buffer on a node records the same buffer on a partner, and the
  two are exactly that many frames apart.
\<close>

lemma buffers_partner_pred:
  assumes run: "correct_buffers s [1..m] = Inr s'"
    and start: "pred_buffer s x = Some NaN"
    and final: "pred_buffer s' x = Some (Buffer v)"
  shows "\<exists>y. (x, y) \<in> set (fp_fn_pairs s) \<and> gt_buffer s' y = Some (Buffer v) \<and>
             \<bar>pred_frame s x - gt_frame s y\<bar> = v \<and> compare_lineages s x y = Inr True"
proof -
  from buffers_value_range(1) [OF run start final] have v: "1 \<le> v" "v \<le> m" by simp_all
  from v have k1: "0 \<le> v - 1" "v - 1 \<le> m" by simp_all
  from correct_buffers_prefix [OF run k1] obtain s1
    where s1: "correct_buffers s [1..v - 1] = Inr s1"
      and rest1: "correct_buffers s1 [v - 1 + 1..m] = Inr s'" by blast
  from v have "[v..m] = v # [v + 1..m]" by (simp add: upto_rec1)
  with rest1 obtain s2 where pass: "correct_pairs v s1 (fp_fn_pairs s1) = Inr s2"
    and rest2: "correct_buffers s2 [v + 1..m] = Inr s'"
    by (auto simp: correct_shifted_divisions_pairs split: sum.splits)
  have pre2: "correct_buffers s [1..v] = Inr s2"
  proof -
    from v have "[1..v] = [1..v - 1] @ [v]" by (simp add: upto_rec2)
    with s1 pass show ?thesis
      by (simp add: correct_buffers_append correct_shifted_divisions_pairs)
  qed
  from buffers_value_at_prefix_pred [OF run start final k1 s1]
  have x1: "pred_buffer s1 x = Some NaN" by simp
  from v have "0 \<le> v" by simp
  from buffers_value_at_prefix_pred [OF run start final this v(2) pre2]
  have x2: "pred_buffer s2 x = Some (Buffer v)" by simp
  from x1 x2 have "\<not> pred_resolved s1 x" "pred_resolved s2 x" by (simp_all add: resolved_iff)
  from correct_pairs_written [OF pass this] obtain y where y: "(x, y) \<in> set (fp_fn_pairs s1)"
    "\<not> gt_resolved s1 y" "gt_buffer s2 y = Some (Buffer v)"
    "0 < \<bar>pred_frame s1 x - gt_frame s1 y\<bar>" "\<bar>pred_frame s1 x - gt_frame s1 y\<bar> \<le> v"
    "compare_lineages s1 x y = Inr True"
    by blast
  have sl: "same_lineages s s1" by (rule correct_buffers_same_lineages [OF s1])
  then have fr: "pred_frame s1 = pred_frame s" "gt_frame s1 = gt_frame s"
    by (simp_all add: same_lineages_def)
  have pairs: "(x, y) \<in> set (fp_fn_pairs s)" using fp_fn_pairs_cong [OF sl] y(1) by simp
  have cmp: "compare_lineages s x y = Inr True" using compare_lineages_cong [OF sl] y(6) by simp
  have fin: "gt_buffer s' y = Some (Buffer v)"
    using correct_buffers_gt_buffer [OF rest2, of y] y(3) by (auto simp: resolved_iff)
  have dist: "\<bar>pred_frame s x - gt_frame s y\<bar> = v"
  proof (rule ccontr)
    assume "\<bar>pred_frame s x - gt_frame s y\<bar> \<noteq> v"
    with y(4,5) fr have small: "0 < \<bar>pred_frame s x - gt_frame s y\<bar>"
      "\<bar>pred_frame s x - gt_frame s y\<bar> \<le> v - 1" by simp_all
    then have "\<bar>pred_frame s x - gt_frame s y\<bar> \<in> set [1..v - 1]" by simp
    from correct_buffers_complete [OF s1 this pairs small(1) _ cmp]
    have "pred_resolved s1 x \<or> gt_resolved s1 y" by simp
    with \<open>\<not> pred_resolved s1 x\<close> y(2) show False by simp
  qed
  from pairs fin dist cmp show ?thesis by blast
qed

lemma buffers_partner_gt:
  assumes run: "correct_buffers s [1..m] = Inr s'"
    and start: "gt_buffer s y = Some NaN"
    and final: "gt_buffer s' y = Some (Buffer v)"
  shows "\<exists>x. (x, y) \<in> set (fp_fn_pairs s) \<and> pred_buffer s' x = Some (Buffer v) \<and>
             \<bar>pred_frame s x - gt_frame s y\<bar> = v \<and> compare_lineages s x y = Inr True"
proof -
  from buffers_value_range(2) [OF run start final] have v: "1 \<le> v" "v \<le> m" by simp_all
  from v have k1: "0 \<le> v - 1" "v - 1 \<le> m" by simp_all
  from correct_buffers_prefix [OF run k1] obtain s1
    where s1: "correct_buffers s [1..v - 1] = Inr s1"
      and rest1: "correct_buffers s1 [v - 1 + 1..m] = Inr s'" by blast
  from v have "[v..m] = v # [v + 1..m]" by (simp add: upto_rec1)
  with rest1 obtain s2 where pass: "correct_pairs v s1 (fp_fn_pairs s1) = Inr s2"
    and rest2: "correct_buffers s2 [v + 1..m] = Inr s'"
    by (auto simp: correct_shifted_divisions_pairs split: sum.splits)
  have pre2: "correct_buffers s [1..v] = Inr s2"
  proof -
    from v have "[1..v] = [1..v - 1] @ [v]" by (simp add: upto_rec2)
    with s1 pass show ?thesis
      by (simp add: correct_buffers_append correct_shifted_divisions_pairs)
  qed
  from buffers_value_at_prefix_gt [OF run start final k1 s1]
  have y1: "gt_buffer s1 y = Some NaN" by simp
  from v have "0 \<le> v" by simp
  from buffers_value_at_prefix_gt [OF run start final this v(2) pre2]
  have y2: "gt_buffer s2 y = Some (Buffer v)" by simp
  from y1 y2 have "\<not> gt_resolved s1 y" "gt_resolved s2 y" by (simp_all add: resolved_iff)
  from correct_pairs_written_gt [OF pass this] obtain x where x: "(x, y) \<in> set (fp_fn_pairs s1)"
    "\<not> pred_resolved s1 x" "pred_buffer s2 x = Some (Buffer v)"
    "0 < \<bar>pred_frame s1 x - gt_frame s1 y\<bar>" "\<bar>pred_frame s1 x - gt_frame s1 y\<bar> \<le> v"
    "compare_lineages s1 x y = Inr True"
    by blast
  have sl: "same_lineages s s1" by (rule correct_buffers_same_lineages [OF s1])
  then have fr: "pred_frame s1 = pred_frame s" "gt_frame s1 = gt_frame s"
    by (simp_all add: same_lineages_def)
  have pairs: "(x, y) \<in> set (fp_fn_pairs s)" using fp_fn_pairs_cong [OF sl] x(1) by simp
  have cmp: "compare_lineages s x y = Inr True" using compare_lineages_cong [OF sl] x(6) by simp
  have fin: "pred_buffer s' x = Some (Buffer v)"
    using correct_buffers_pred_buffer [OF rest2, of x] x(3) by (auto simp: resolved_iff)
  have dist: "\<bar>pred_frame s x - gt_frame s y\<bar> = v"
  proof (rule ccontr)
    assume "\<bar>pred_frame s x - gt_frame s y\<bar> \<noteq> v"
    with x(4,5) fr have small: "0 < \<bar>pred_frame s x - gt_frame s y\<bar>"
      "\<bar>pred_frame s x - gt_frame s y\<bar> \<le> v - 1" by simp_all
    then have "\<bar>pred_frame s x - gt_frame s y\<bar> \<in> set [1..v - 1]" by simp
    from correct_buffers_complete [OF s1 this pairs small(1) _ cmp]
    have "pred_resolved s1 x \<or> gt_resolved s1 y" by simp
    with \<open>\<not> gt_resolved s1 y\<close> x(2) show False by simp
  qed
  from pairs fin dist cmp show ?thesis by blast
qed

subsection \<open>The sentinels the orchestrator writes\<close>

lemma mark_loop_attrs:
  "attrs (foldl (\<lambda>h node. set_min_buffer_correct h node NaN) g ns) x =
     (if x \<in> set ns then (attrs g x)\<lparr>min_buffer_correct := Some NaN\<rparr> else attrs g x)"
  by (induction ns arbitrary: g) (auto simp: set_min_buffer_correct_def)

lemma mark_loop_structure:
  "edges (foldl (\<lambda>h node. set_min_buffer_correct h node NaN) g ns) = edges g"
  "node_ids (foldl (\<lambda>h node. set_min_buffer_correct h node NaN) g ns) = node_ids g"
  by (induction ns arbitrary: g) (auto simp: set_min_buffer_correct_def)

lemma mark_unset_same_lineages: "same_lineages md (mark_unset md)"
  by (simp add: same_lineages_def mark_unset_def mark_nan_def mark_loop_structure
      gt_frame_def pred_frame_def gt_flags_def pred_flags_def fun_eq_iff mark_loop_attrs)

lemma mark_unset_buffers:
  "pred_buffer (mark_unset md) x = (if x \<in> set (fp_divs md) then Some NaN else pred_buffer md x)"
  "gt_buffer (mark_unset md) y = (if y \<in> set (fn_divs md) then Some NaN else gt_buffer md y)"
  by (simp_all add: pred_buffer_def gt_buffer_def mark_unset_def mark_nan_def mark_loop_attrs
      fp_divs_def fn_divs_def)

lemma evaluate_start:
  assumes "evaluate_division_events md m = Inr md'"
  shows "same_lineages (mark_unset (classify_divisions md)) md'"
    and "x \<in> set (fp_divs md') \<Longrightarrow> pred_buffer (mark_unset (classify_divisions md)) x = Some NaN"
    and "y \<in> set (fn_divs md') \<Longrightarrow> gt_buffer (mark_unset (classify_divisions md)) y = Some NaN"
proof -
  let ?s = "mark_unset (classify_divisions md)"
  from assms have run: "correct_buffers ?s [1..m] = Inr md'"
    by (simp add: evaluate_division_events_def)
  show sl: "same_lineages ?s md'" by (rule correct_buffers_same_lineages [OF run])
  have sl0: "same_lineages (classify_divisions md) ?s" by (rule mark_unset_same_lineages)
  have "fp_divs md' = fp_divs (classify_divisions md)" "fn_divs md' = fn_divs (classify_divisions md)"
    using fp_fn_divs_cong [OF sl] fp_fn_divs_cong [OF sl0] by simp_all
  then show "x \<in> set (fp_divs md') \<Longrightarrow> pred_buffer ?s x = Some NaN"
    and "y \<in> set (fn_divs md') \<Longrightarrow> gt_buffer ?s y = Some NaN"
    by (simp_all add: mark_unset_buffers)
qed

lemma skip_resolved_pair:
  "pred_resolved s fp \<or> gt_resolved s fn \<Longrightarrow> shifted_pair_correct s n fp fn = Inr False"
  by (simp add: shifted_pair_correct_unfold)

lemma recorded_buffer_pred:
  assumes run: "evaluate_division_events md m = Inr md'"
    and x: "x \<in> set (fp_divs md')" and v: "pred_buffer md' x = Some (Buffer v)"
  shows "1 \<le> v \<and> v \<le> m \<and>
         (\<forall>k. 0 \<le> k \<and> k \<le> m \<longrightarrow>
            (\<exists>mk. evaluate_division_events md k = Inr mk \<and>
                  pred_buffer mk x = (if k < v then Some NaN else Some (Buffer v)))) \<and>
         (\<exists>y. y \<in> set (fn_divs md') \<and> gt_buffer md' y = Some (Buffer v) \<and>
              \<bar>pred_frame md' x - gt_frame md' y\<bar> = v \<and> compare_lineages md' x y = Inr True)"
proof -
  let ?s = "mark_unset (classify_divisions md)"
  from run have r: "correct_buffers ?s [1..m] = Inr md'"
    by (simp add: evaluate_division_events_def)
  note sl = evaluate_start(1) [OF run]
  note start = evaluate_start(2) [OF run x]
  from buffers_value_range(1) [OF r start v] have range: "1 \<le> v \<and> v \<le> m" .
  have prefixes: "\<forall>k. 0 \<le> k \<and> k \<le> m \<longrightarrow>
            (\<exists>mk. evaluate_division_events md k = Inr mk \<and>
                  pred_buffer mk x = (if k < v then Some NaN else Some (Buffer v)))"
  proof (intro allI impI)
    fix k assume k: "0 \<le> k \<and> k \<le> m"
    then have k0: "0 \<le> k" and km: "k \<le> m" by simp_all
    from correct_buffers_prefix [OF r k0 km] obtain mk
      where mk: "correct_buffers ?s [1..k] = Inr mk" by blast
    from buffers_value_at_prefix_pred [OF r start v k0 km mk] mk
    show "\<exists>mk. evaluate_division_events md k = Inr mk \<and>
                pred_buffer mk x = (if k < v then Some NaN else Some (Buffer v))"
      by (simp add: evaluate_division_events_def)
  qed
  from buffers_partner_pred [OF r start v] obtain y where y: "(x, y) \<in> set (fp_fn_pairs ?s)"
    "gt_buffer md' y = Some (Buffer v)" "\<bar>pred_frame ?s x - gt_frame ?s y\<bar> = v"
    "compare_lineages ?s x y = Inr True" by blast
  from sl have fr: "pred_frame md' = pred_frame ?s" "gt_frame md' = gt_frame ?s"
    by (simp_all add: same_lineages_def)
  from y(1) fp_fn_divs_cong(2) [OF sl] have "y \<in> set (fn_divs md')"
    by (simp add: fp_fn_pairs_def)
  moreover from y(4) compare_lineages_cong [OF sl] have "compare_lineages md' x y = Inr True"
    by simp
  ultimately have "\<exists>y. y \<in> set (fn_divs md') \<and> gt_buffer md' y = Some (Buffer v) \<and>
              \<bar>pred_frame md' x - gt_frame md' y\<bar> = v \<and> compare_lineages md' x y = Inr True"
    using y(2,3) fr by (intro exI [of _ y]) simp
  with range prefixes show ?thesis by blast
qed

lemma recorded_buffer_gt:
  assumes run: "evaluate_division_events md m = Inr md'"
    and y: "y \<in> set (fn_divs md')" and v: "gt_buffer md' y = Some (Buffer v)"
  shows "1 \<le> v \<and> v \<le> m \<and>
         (\<forall>k. 0 \<le> k \<and> k \<le> m \<longrightarrow>
            (\<exists>mk. evaluate_division_events md k = Inr mk \<and>
                  gt_buffer mk y = (if k < v then Some NaN else Some (Buffer v)))) \<and>
         (\<exists>x. x \<in> set (fp_divs md') \<and> pred_buffer md' x = Some (Buffer v) \<and>
              \<bar>pred_frame md' x - gt_frame md' y\<bar> = v \<and> compare_lineages md' x y = Inr True)"
proof -
  let ?s = "mark_unset (classify_divisions md)"
  from run have r: "correct_buffers ?s [1..m] = Inr md'"
    by (simp add: evaluate_division_events_def)
  note sl = evaluate_start(1) [OF run]
  note start = evaluate_start(3) [OF run y]
  from buffers_value_range(2) [OF r start v] have range: "1 \<le> v \<and> v \<le> m" .
  have prefixes: "\<forall>k. 0 \<le> k \<and> k \<le> m \<longrightarrow>
            (\<exists>mk. evaluate_division_events md k = Inr mk \<and>
                  gt_buffer mk y = (if k < v then Some NaN else Some (Buffer v)))"
  proof (intro allI impI)
    fix k assume k: "0 \<le> k \<and> k \<le> m"
    then have k0: "0 \<le> k" and km: "k \<le> m" by simp_all
    from correct_buffers_prefix [OF r k0 km] obtain mk
      where mk: "correct_buffers ?s [1..k] = Inr mk" by blast
    from buffers_value_at_prefix_gt [OF r start v k0 km mk] mk
    show "\<exists>mk. evaluate_division_events md k = Inr mk \<and>
                gt_buffer mk y = (if k < v then Some NaN else Some (Buffer v))"
      by (simp add: evaluate_division_events_def)
  qed
  from buffers_partner_gt [OF r start v] obtain x where x: "(x, y) \<in> set (fp_fn_pairs ?s)"
    "pred_buffer md' x = Some (Buffer v)" "\<bar>pred_frame ?s x - gt_frame ?s y\<bar> = v"
    "compare_lineages ?s x y = Inr True" by blast
  from sl have fr: "pred_frame md' = pred_frame ?s" "gt_frame md' = gt_frame ?s"
    by (simp_all add: same_lineages_def)
  from x(1) fp_fn_divs_cong(1) [OF sl] have "x \<in> set (fp_divs md')"
    by (simp add: fp_fn_pairs_def)
  moreover from x(4) compare_lineages_cong [OF sl] have "compare_lineages md' x y = Inr True"
    by simp
  ultimately have "\<exists>x. x \<in> set (fp_divs md') \<and> pred_buffer md' x = Some (Buffer v) \<and>
              \<bar>pred_frame md' x - gt_frame md' y\<bar> = v \<and> compare_lineages md' x y = Inr True"
    using x(2,3) fr by (intro exI [of _ x]) simp
  with range prefixes show ?thesis by blast
qed

lemma correct_shifted_divisions_keeps:
  assumes "correct_shifted_divisions s n = Inr s'"
  shows "pred_buffer s x = Some (Buffer b) \<Longrightarrow> pred_buffer s' x = Some (Buffer b)"
    and "gt_buffer s y = Some (Buffer b) \<Longrightarrow> gt_buffer s' y = Some (Buffer b)"
  using assms correct_pairs_pred_buffer [of n s "fp_fn_pairs s" s' x]
    correct_pairs_gt_buffer [of n s "fp_fn_pairs s" s' y]
  by (auto simp: correct_shifted_divisions_pairs resolved_iff)

subsection \<open>The pass up to a given pair\<close>

lemma correct_pairs_append:
  "correct_pairs n md (xs @ ys) =
     (case correct_pairs n md xs of Inl e \<Rightarrow> Inl e | Inr m \<Rightarrow> correct_pairs n m ys)"
proof (induction xs arbitrary: md)
  case Nil
  then show ?case by simp
next
  case (Cons pr xs)
  obtain a b where pr: "pr = (a, b)" by (cases pr)
  show ?case
  proof (cases "shifted_pair_correct md n a b")
    case (Inl e)
    with pr show ?thesis by simp
  next
    case (Inr c)
    with pr Cons.IH [of "if c then record_correction md n a b else md"] show ?thesis by simp
  qed
qed

lemma shifted_pair_correct_at_merge:
  assumes "same_lineages md m"
    and "0 < \<bar>pred_frame md fp - gt_frame md fn\<bar>" "\<bar>pred_frame md fp - gt_frame md fn\<bar> \<le> n"
    and "walk_back md fp fn = Inl ValueError_merges"
  shows "shifted_pair_correct m n fp fn =
           (if pred_resolved m fp \<or> gt_resolved m fn then Inr False else Inl ValueError_merges)"
proof -
  from assms(1) have fr: "pred_frame m = pred_frame md" "gt_frame m = gt_frame md"
    by (simp_all add: same_lineages_def)
  from walk_back_cong [OF assms(1)] assms(4) have "walk_back m fp fn = Inl ValueError_merges"
    by simp
  then have "compare_lineages m fp fn = Inl ValueError_merges"
    by (simp add: compare_lineages_error)
  with assms(2,3) fr show ?thesis by (auto simp: shifted_pair_correct_unfold)
qed

subsection \<open>Classification leaves the tracks alone\<close>

lemma same_tracks_refl [simp]: "same_tracks md md"
  by (simp add: same_tracks_def)

lemma same_tracks_trans: "same_tracks a b \<Longrightarrow> same_tracks b c \<Longrightarrow> same_tracks a c"
  by (simp add: same_tracks_def)

lemma same_lineages_tracks: "same_lineages md md' \<Longrightarrow> same_tracks md md'"
  by (simp add: same_lineages_def same_tracks_def)

lemma set_flag_same_tracks:
  "same_tracks md (set_gt_flag md n f)" "same_tracks md (set_pred_flag md n f)"
  by (simp_all add: same_tracks_def set_gt_flag_def set_pred_flag_def set_flag_on_node_def
      gt_frame_def pred_frame_def fun_eq_iff)

lemma classify_gt_node_same_tracks: "same_tracks md (fst (classify_gt_node (md, dp) a))"
proof (cases md a dp rule: classify_gt_node_cases)
  case unmatched
  then show ?thesis by (simp add: set_flag_same_tracks)
next
  case (not_division p)
  then show ?thesis by (simp add: set_flag_same_tracks)
next
  case (division p)
  then show ?thesis
    using same_tracks_trans [OF set_flag_same_tracks(1) set_flag_same_tracks(2)] by simp
qed

lemma classify_loop_same_tracks: "same_tracks md (fst (foldl classify_gt_node (md, dp) gs))"
proof (induction gs arbitrary: md dp)
  case Nil
  then show ?case by simp
next
  case (Cons a gs)
  obtain md' dp' where st': "classify_gt_node (md, dp) a = (md', dp')"
    by (cases "classify_gt_node (md, dp) a")
  from classify_gt_node_same_tracks [of md dp a] st' have "same_tracks md md'" by simp
  from same_tracks_trans [OF this Cons.IH [of md' dp']] classify_loop_step [OF st', of gs]
  show ?case by simp
qed

lemma flag_false_positives_same_tracks: "same_tracks md (flag_false_positives md dp)"
  unfolding flag_false_positives_def
proof (induction dp arbitrary: md)
  case Nil
  then show ?case by simp
next
  case (Cons a dp)
  from same_tracks_trans [OF set_flag_same_tracks(2) Cons.IH, of md a FP_DIV]
  show ?case by simp
qed

lemma set_division_annotations_same_tracks: "same_tracks md (set_division_annotations md)"
  by (simp add: same_tracks_def set_division_annotations_def gt_frame_def pred_frame_def
      fun_eq_iff)

lemma classify_divisions_same_tracks: "same_tracks md (classify_divisions md)"
proof (cases "already_annotated md")
  case True
  then show ?thesis by (simp add: classify_divisions_def already_annotated_def)
next
  case False
  let ?st = "classify_gt_loop md (get_divisions (pred_graph md)) (get_divisions (gt_graph md))"
  have "same_tracks md (fst ?st)"
    unfolding classify_gt_loop_def by (rule classify_loop_same_tracks)
  from same_tracks_trans [OF this flag_false_positives_same_tracks]
  have "same_tracks md (flag_false_positives (fst ?st) (working_div_pred md))" .
  from same_tracks_trans [OF this set_division_annotations_same_tracks]
  show ?thesis by (simp add: classify_divisions_unfold [OF False])
qed

lemma compare_lineages_tracks:
  assumes "same_tracks md md'"
  shows "compare_lineages md' fp fn = compare_lineages md fp fn"
proof -
  from assms have m: "mapping md' = mapping md"
    and eg: "edges (gt_graph md') = edges (gt_graph md)"
    and ep: "edges (pred_graph md') = edges (pred_graph md)"
    and fg: "frame (attrs (gt_graph md') fn) = frame (attrs (gt_graph md) fn)"
    and fp: "frame (attrs (pred_graph md') fp) = frame (attrs (pred_graph md) fp)"
    by (simp_all add: same_tracks_def gt_frame_def pred_frame_def fun_eq_iff)
  have 1: "get_gt_pred_match md' = get_gt_pred_match md"
    "get_pred_gt_match md' = get_pred_gt_match md"
    "in_mapper md' = in_mapper md"
    using m by (simp_all add: get_gt_pred_match_def get_pred_gt_match_def in_mapper_def fun_eq_iff
        split: option.splits)
  have 2: "successors (gt_graph md') = successors (gt_graph md)"
    "successors (pred_graph md') = successors (pred_graph md)"
    using eg ep by (simp_all add: successors_def fun_eq_iff)
  have 3: "get_pred_by_t (gt_graph md') = get_pred_by_t (gt_graph md)"
    "get_pred_by_t (pred_graph md') = get_pred_by_t (pred_graph md)"
    "get_succ_by_t (gt_graph md') = get_succ_by_t (gt_graph md)"
    "get_succ_by_t (pred_graph md') = get_succ_by_t (pred_graph md)"
    using get_pred_by_t_cong [OF eg] get_pred_by_t_cong [OF ep]
      get_succ_by_t_cong [OF eg] get_succ_by_t_cong [OF ep]
    by (simp_all only: fun_eq_iff) simp_all
  show ?thesis
    unfolding compare_lineages_def Let_def by (simp only: 1 2 3 fg fp)
qed

subsection \<open>Without merges the corrector returns\<close>

lemma no_merges_predecessors:
  assumes "no_merges g"
  shows "length (predecessors g n) \<le> 1"
proof (cases "n \<in> snd ` set (edges g)")
  case True
  with assms show ?thesis by (auto simp: no_merges_def list_all_iff)
next
  case False
  then have "filter (\<lambda>e. snd e = n) (edges g) = []"
    by (auto simp: filter_empty_conv)
  then show ?thesis by (simp add: predecessors_def)
qed

lemma no_merges_cong: "edges g' = edges g \<Longrightarrow> no_merges g' = no_merges g"
  by (simp add: no_merges_def predecessors_def)

lemma get_pred_by_t_returns:
  assumes "no_merges g"
  shows "\<exists>r. get_pred_by_t g x k = Inr r"
proof (induction k arbitrary: x)
  case 0
  then show ?case by simp
next
  case (Suc k)
  from no_merges_predecessors [OF assms, of x]
  consider "predecessors g x = []" | p where "predecessors g x = [p]"
    by (cases "predecessors g x") (auto simp: length_Suc_conv)
  then show ?case
  proof cases
    case 1
    then show ?thesis by simp
  next
    case 2
    with Suc.IH [of p] show ?thesis by simp
  qed
qed

lemma shifted_pair_correct_returns:
  assumes "no_merges (gt_graph md)" "no_merges (pred_graph md)"
  shows "\<exists>c. shifted_pair_correct md n fp fn = Inr c"
proof (cases "shifted_pair_correct md n fp fn")
  case (Inr c)
  then show ?thesis by blast
next
  case (Inl e)
  then have "compare_lineages md fp fn = Inl e"
    by (auto simp: shifted_pair_correct_unfold split: if_splits)
  then have "walk_back md fp fn = Inl e" by (simp add: compare_lineages_error)
  with get_pred_by_t_returns [OF assms(1)] get_pred_by_t_returns [OF assms(2)]
  have False
    by (auto simp: walk_back_def split: if_splits) (metis Inl_Inr_False)+
  then show ?thesis ..
qed

lemma correct_pairs_returns:
  assumes "no_merges (gt_graph md)" "no_merges (pred_graph md)"
  shows "\<exists>md'. correct_pairs n md prs = Inr md'"
  using assms
proof (induction prs arbitrary: md)
  case Nil
  then show ?case by simp
next
  case (Cons pr prs)
  obtain a b where pr: "pr = (a, b)" by (cases pr)
  from shifted_pair_correct_returns [OF Cons.prems, of n a b]
  obtain c where c: "shifted_pair_correct md n a b = Inr c" by blast
  let ?md1 = "if c then record_correction md n a b else md"
  have "same_lineages md ?md1" by (simp add: record_correction_same_lineages)
  then have "edges (gt_graph ?md1) = edges (gt_graph md)"
    "edges (pred_graph ?md1) = edges (pred_graph md)" by (simp_all add: same_lineages_def)
  with Cons.prems no_merges_cong have "no_merges (gt_graph ?md1)" "no_merges (pred_graph ?md1)"
    by blast+
  from Cons.IH [OF this] c pr show ?case by simp
qed

subsection \<open>A division that is one frame late\<close>

lemma compare_lineages_one_frame_late:
  assumes fr: "pred_frame md p = gt_frame md g + 1"
    and q: "predecessors (pred_graph md) p = [q]" "(g, q) \<in> set (mapping md)"
    and d: "Counter (map (get_pred_gt_match md) (successors (pred_graph md) p)) =
            Counter (map (\<lambda>d. get_succ_by_t (gt_graph md) d 1) (successors (gt_graph md) g))"
  shows "compare_lineages md p g = Inr True"
proof -
  from fr have t: "\<not> frame (attrs (pred_graph md) p) < frame (attrs (gt_graph md) g)"
    "nat (frame (attrs (pred_graph md) p) - frame (attrs (gt_graph md) g)) = Suc 0"
    by (simp_all add: pred_frame_def gt_frame_def)
  have walk: "get_pred_by_t (pred_graph md) p (Suc 0) = Inr (Some q)"
    using q(1) by simp
  have m: "in_mapper md (Some g) (Some q)" using q(2) by (simp add: in_mapper_def)
  from d have d': "Counter (map (get_pred_gt_match md) (successors (pred_graph md) p)) =
            Counter (map (\<lambda>d. get_succ_by_t (gt_graph md) d (Suc 0)) (successors (gt_graph md) g))"
    by simp
  show ?thesis
    unfolding compare_lineages_def Let_def
    by (simp only: t walk m d' if_False sum.case not_True_eq_False not_not if_True simp_thms)
qed

lemma flagged_nodes:
  "x \<in> set (fp_divs md) \<Longrightarrow> FP_DIV \<in> pred_flags md x"
  "y \<in> set (fn_divs md) \<Longrightarrow> FN_DIV \<in> gt_flags md y"
  by (simp_all add: fp_divs_def fn_divs_def get_nodes_with_flag_def pred_flags_def gt_flags_def)

lemma one_frame_late_pass:
  assumes run: "correct_pairs 1 s (fp_fn_pairs s) = Inr s'"
    and p: "p \<in> set (fp_divs s)" and g: "g \<in> set (fn_divs s)"
    and start: "pred_buffer s p = Some NaN" "gt_buffer s g = Some NaN"
    and fr: "pred_frame s p = gt_frame s g + 1"
    and cmp: "compare_lineages s p g = Inr True"
    and alone_fp: "list_all (\<lambda>x. x = p \<or> \<bar>pred_frame s x - gt_frame s g\<bar> \<noteq> 1) (fp_divs s)"
    and alone_fn: "list_all (\<lambda>y. y = g \<or> \<bar>pred_frame s p - gt_frame s y\<bar> \<noteq> 1) (fn_divs s)"
  shows "pred_buffer s' p = Some (Buffer 1) \<and> gt_buffer s' g = Some (Buffer 1)"
proof -
  from p g have pair: "(p, g) \<in> set (fp_fn_pairs s)" by (simp add: fp_fn_pairs_def)
  from fr have dist: "0 < \<bar>pred_frame s p - gt_frame s g\<bar>" "\<bar>pred_frame s p - gt_frame s g\<bar> \<le> 1"
    by simp_all
  from start have un: "\<not> pred_resolved s p" "\<not> gt_resolved s g" by (simp_all add: resolved_iff)
  from correct_pairs_complete [OF run pair dist cmp]
  have "pred_resolved s' p \<or> gt_resolved s' g" .
  then show ?thesis
  proof
    assume "pred_resolved s' p"
    from correct_pairs_written [OF run un(1) this] obtain y where y: "(p, y) \<in> set (fp_fn_pairs s)"
      "gt_buffer s' y = Some (Buffer 1)" "pred_buffer s' p = Some (Buffer 1)"
      "0 < \<bar>pred_frame s p - gt_frame s y\<bar>" "\<bar>pred_frame s p - gt_frame s y\<bar> \<le> 1"
      by blast
    from y(1) have "y \<in> set (fn_divs s)" by (simp add: fp_fn_pairs_def)
    with alone_fn y(4,5) have "y = g" by (auto simp: list_all_iff)
    with y(2,3) show ?thesis by simp
  next
    assume "gt_resolved s' g"
    from correct_pairs_written_gt [OF run un(2) this] obtain x where x: "(x, g) \<in> set (fp_fn_pairs s)"
      "pred_buffer s' x = Some (Buffer 1)" "gt_buffer s' g = Some (Buffer 1)"
      "0 < \<bar>pred_frame s x - gt_frame s g\<bar>" "\<bar>pred_frame s x - gt_frame s g\<bar> \<le> 1"
      by blast
    from x(1) have "x \<in> set (fp_divs s)" by (simp add: fp_fn_pairs_def)
    with alone_fp x(4,5) have "x = p" by (auto simp: list_all_iff)
    with x(2,3) show ?thesis by simp
  qed
qed

section \<open>Properties of the IoU matcher\<close>

lemma np_max_nonempty:
  assumes "pixels a \<noteq> []"
  shows "np_max a = Inr (Max (set (pixels a)))"
proof (cases "pixels a")
  case Nil
  with assms show ?thesis by simp
next
  case (Cons x rest)
  have "Max (set (x # rest)) = fold max rest x" by (rule Max.set_eq_fold)
  with Cons show ?thesis by (simp add: np_max_def)
qed

lemma fill_iou_result:
  assumes "length gt = length res" "length gs = length ps"
    and "list_all (\<lambda>g. g < rows) gs" "list_all (\<lambda>p. p < cols) ps"
  shows "\<exists>iou'. fill_iou td gt res rows cols gs ps iou = Inr iou' \<and>
           (\<forall>i j. iou' i j = (if (i, j) \<in> set (zip gs ps) then iou_of td gt res i j else iou i j))"
  using assms(2,3,4)
proof (induction gs ps arbitrary: iou rule: list_induct2)
  case Nil
  then show ?case by simp
next
  case (Cons g gs p ps)
  let ?iou1 = "iou(g := (iou g)(p := iou_of td gt res g p))"
  from Cons.prems have b: "g < rows" "p < cols"
    and rest: "list_all (\<lambda>g. g < rows) gs" "list_all (\<lambda>p. p < cols) ps" by simp_all
  from Cons.IH [OF rest, of ?iou1] obtain iou' where
    run: "fill_iou td gt res rows cols gs ps ?iou1 = Inr iou'"
    and val: "\<forall>i j. iou' i j = (if (i, j) \<in> set (zip gs ps) then iou_of td gt res i j else ?iou1 i j)"
    by blast
  have "fill_iou td gt res rows cols (g # gs) (p # ps) iou = Inr iou'"
    using run b assms(1) by (simp add: iou_of_def)
  moreover have "\<forall>i j. iou' i j =
      (if (i, j) \<in> set (zip (g # gs) (p # ps)) then iou_of td gt res i j else iou i j)"
    using val by auto
  ultimately show ?case by blast
qed

lemma np_where_ge_set:
  "set (np_where_ge rows cols iou t) = {(i, j). i < rows \<and> j < cols \<and> t \<le> iou i j}"
  by (auto simp: np_where_ge_def)

lemma np_where_ge_distinct: "distinct (np_where_ge rows cols iou t)"
  by (simp add: np_where_ge_def distinct_product)

text \<open>
  Where the largest label of either frame is below the largest value of its dtype, so that
  the sum \<open>np.max + 1\<close> does not wrap, the matcher returns the candidate pairs that reach the
  threshold.
\<close>

lemma match_nodes_result:
  fixes threshold :: "'f::{zero,ord}"
  assumes shape: "length (pixels gt) = length (pixels res)" and nonempty: "pixels gt \<noteq> []"
    and no_wrap: "plus_one (frame_dtype gt) (Max (set (pixels gt))) = int (Max (set (pixels gt)) + 1)"
      "plus_one (frame_dtype res) (Max (set (pixels res))) = int (Max (set (pixels res)) + 1)"
    and parallel: "length (fst (finder gt res)) = length (snd (finder gt res))"
    and present: "set (fst (finder gt res)) \<subseteq> set (pixels gt)"
      "set (snd (finder gt res)) \<subseteq> set (pixels res)"
    and positive: "\<not> threshold \<le> 0"
  shows "\<exists>pairs. match_nodes finder td gt res threshold = Inr (map fst pairs, map snd pairs) \<and>
           distinct pairs \<and>
           set pairs = {(g, p). (g, p) \<in> set (candidate_pairs finder gt res) \<and>
                                threshold \<le> iou_of td (pixels gt) (pixels res) g p}"
proof -
  let ?gs = "fst (finder gt res)" and ?ps = "snd (finder gt res)"
  let ?rows = "Max (set (pixels gt)) + 1" and ?cols = "Max (set (pixels res)) + 1"
  from shape nonempty have nonempty': "pixels res \<noteq> []" by auto
  have rows: "list_all (\<lambda>g. g < ?rows) ?gs"
    unfolding list_all_iff using present(1) by (auto simp: less_Suc_eq_le)
  have cols: "list_all (\<lambda>p. p < ?cols) ?ps"
    unfolding list_all_iff using present(2) by (auto simp: less_Suc_eq_le)
  from fill_iou_result [OF shape parallel rows cols, of td "\<lambda>i j. 0"] obtain iou' where
    run: "fill_iou td (pixels gt) (pixels res) ?rows ?cols ?gs ?ps (\<lambda>i j. 0) = Inr iou'"
    and val: "\<forall>i j. iou' i j =
                (if (i, j) \<in> set (zip ?gs ?ps) then iou_of td (pixels gt) (pixels res) i j else 0)"
    by blast
  let ?pairs = "np_where_ge ?rows ?cols iou' threshold"
  from no_wrap have dims:
    "nat (plus_one (frame_dtype gt) (Max (set (pixels gt)))) = ?rows"
    "nat (plus_one (frame_dtype res) (Max (set (pixels res)))) = ?cols"
    "\<not> plus_one (frame_dtype gt) (Max (set (pixels gt))) < 0"
    "\<not> plus_one (frame_dtype res) (Max (set (pixels res))) < 0"
    by simp_all
  have res: "match_nodes finder td gt res threshold = Inr (map fst ?pairs, map snd ?pairs)"
    using dims run
    by (simp add: match_nodes_def Let_def np_max_nonempty [OF nonempty]
        np_max_nonempty [OF nonempty'])
  have in_range: "\<And>g p. (g, p) \<in> set (zip ?gs ?ps) \<Longrightarrow> g < ?rows \<and> p < ?cols"
  proof -
    fix g p assume "(g, p) \<in> set (zip ?gs ?ps)"
    then have "g \<in> set ?gs" "p \<in> set ?ps" by (auto dest: set_zip_leftD set_zip_rightD)
    with rows cols show "g < ?rows \<and> p < ?cols" by (simp add: list_all_iff)
  qed
  have "set ?pairs = {(g, p). (g, p) \<in> set (candidate_pairs finder gt res) \<and>
                                threshold \<le> iou_of td (pixels gt) (pixels res) g p}"
    unfolding np_where_ge_set candidate_pairs_def
    using val positive in_range by auto
  with res np_where_ge_distinct [of ?rows ?cols iou' threshold] show ?thesis by blast
qed

section \<open>The claims about the classifier\<close>

text \<open>
  C5. When the classifier runs (the done flags are not both set), a ground-truth division
  \<open>g\<close> that has no matched predicted node, or whose matched node is not a predicted
  division, receives the flag \<open>FN_DIV\<close> and no other flag: its flags afterwards are its
  flags before plus \<open>FN_DIV\<close>, so the classifier gives it neither \<open>TP_DIV\<close> nor \<open>WC_DIV\<close>.
\<close>

theorem unmatched_division_is_fn:
  assumes "\<not> already_annotated md"
    and "g \<in> set (get_divisions (gt_graph md))"
    and "get_gt_pred_match md g = None \<or>
         (\<exists>p. get_gt_pred_match md g = Some p \<and> p \<notin> set (get_divisions (pred_graph md)))"
  shows "gt_flags (classify_divisions md) g = insert FN_DIV (gt_flags md g)"
proof -
  from assms(3) have "no_division_partner md (get_divisions (pred_graph md)) g"
    by (auto simp: no_division_partner_def)
  from classify_loop_fn [OF this, of "get_divisions (gt_graph md)"] assms(1,2)
  show ?thesis by (simp add: classify_divisions_gt_flags classify_gt_loop_def)
qed

theorem unmatched_division_is_fn_witness:
  "\<not> already_annotated late_tracked \<and> 1 \<in> set (get_divisions (gt_graph late_tracked)) \<and>
   get_gt_pred_match late_tracked 1 = Some 11 \<and>
   11 \<notin> set (get_divisions (pred_graph late_tracked)) \<and>
   gt_flags (classify_divisions late_tracked) 1 = insert FN_DIV (gt_flags late_tracked 1) \<and>
   gt_flags (classify_divisions late_tracked) 1 = {FN_DIV}"
proof -
  have h1: "\<not> already_annotated late_tracked" by code_simp
  have h2: "1 \<in> set (get_divisions (gt_graph late_tracked))" by code_simp
  have h3: "get_gt_pred_match late_tracked 1 = Some 11" by code_simp
  have h4: "11 \<notin> set (get_divisions (pred_graph late_tracked))" by code_simp
  from h3 h4 have "get_gt_pred_match late_tracked 1 = None \<or>
    (\<exists>p. get_gt_pred_match late_tracked 1 = Some p \<and>
         p \<notin> set (get_divisions (pred_graph late_tracked)))" by blast
  from unmatched_division_is_fn [OF h1 h2 this]
  have c: "gt_flags (classify_divisions late_tracked) 1 = insert FN_DIV (gt_flags late_tracked 1)" .
  have "gt_flags late_tracked 1 = {}" by code_simp
  with c h1 h2 h3 h4 show ?thesis by simp
qed

text \<open>
  C6. When the classifier runs, every predicted division that is still in the working
  list \<open>div_pred\<close> after the loop over the ground-truth divisions carries \<open>FP_DIV\<close>
  afterwards; and a predicted division to which no ground-truth division is matched is
  still in that list.
\<close>

theorem remaining_division_is_fp:
  assumes "\<not> already_annotated md"
  shows "(p \<in> set (working_div_pred md) \<longrightarrow> FP_DIV \<in> pred_flags (classify_divisions md) p) \<and>
         (p \<in> set (get_divisions (pred_graph md)) \<and>
          list_all (\<lambda>g. get_gt_pred_match md g \<noteq> Some p) (get_divisions (gt_graph md)) \<longrightarrow>
          p \<in> set (working_div_pred md))"
  using assms working_div_pred_unconsumed [of p md]
  by (simp add: classify_divisions_pred_flags)

theorem remaining_division_is_fp_witness:
  "\<not> already_annotated late_tracked \<and> 12 \<in> set (working_div_pred late_tracked) \<and>
   12 \<in> set (get_divisions (pred_graph late_tracked)) \<and>
   list_all (\<lambda>g. get_gt_pred_match late_tracked g \<noteq> Some 12)
            (get_divisions (gt_graph late_tracked)) \<and>
   FP_DIV \<in> pred_flags (classify_divisions late_tracked) 12"
proof -
  have h1: "\<not> already_annotated late_tracked" by code_simp
  have h2: "12 \<in> set (working_div_pred late_tracked)" by code_simp
  have h3: "12 \<in> set (get_divisions (pred_graph late_tracked))" by code_simp
  have h4: "list_all (\<lambda>g. get_gt_pred_match late_tracked g \<noteq> Some 12)
            (get_divisions (gt_graph late_tracked))" by code_simp
  from remaining_division_is_fp [OF h1, of 12] h2
  have "FP_DIV \<in> pred_flags (classify_divisions late_tracked) 12" by simp
  with h1 h2 h3 h4 show ?thesis by simp
qed

text \<open>
  C7. The classifier is idempotent: with the done flag on both graphs it returns its
  argument unchanged, a second call changes nothing that the first call produced, and
  every call ends with the done flag set on both graphs.
\<close>

theorem classify_divisions_idempotent:
  "classify_divisions (classify_divisions md) = classify_divisions md \<and>
   already_annotated (classify_divisions md) \<and>
   (already_annotated md \<longrightarrow> classify_divisions md = md)"
proof -
  have done_flags: "already_annotated (classify_divisions md)"
    by (simp add: classify_divisions_def Let_def set_division_annotations_done
        already_annotated_def)
  have skip: "\<And>m. already_annotated m \<Longrightarrow> classify_divisions m = m"
    by (simp add: classify_divisions_def already_annotated_def)
  from skip [OF done_flags] done_flags skip [of md] show ?thesis
    by simp
qed

theorem classify_divisions_idempotent_witness:
  "already_annotated (classify_divisions late_tracked) \<and>
   classify_divisions (classify_divisions late_tracked) = classify_divisions late_tracked \<and>
   gt_flags (classify_divisions (classify_divisions late_tracked)) 1 = {FN_DIV} \<and>
   pred_flags (classify_divisions (classify_divisions late_tracked)) 12 = {FP_DIV}"
proof -
  have a: "already_annotated (classify_divisions late_tracked)" by code_simp
  from classify_divisions_idempotent [of "classify_divisions late_tracked"] a
  have b: "classify_divisions (classify_divisions late_tracked) = classify_divisions late_tracked"
    by simp
  have "gt_flags (classify_divisions late_tracked) 1 = {FN_DIV}"
    "pred_flags (classify_divisions late_tracked) 12 = {FP_DIV}" by code_simp+
  with a b show ?thesis by simp
qed

text \<open>
  C2, as the code has it. Under a one-to-one mapping (no node in two pairs), with the
  node keys of each graph distinct, a ground-truth division \<open>g\<close> whose matched node \<open>p\<close> is
  a predicted division is judged by comparing, as multisets, the daughters of \<open>g\<close> mapped
  to their predicted counterparts (\<open>None\<close> where unmatched) with the daughters of \<open>p\<close>:
  both \<open>g\<close> and \<open>p\<close> receive \<open>TP_DIV\<close> when the multisets are equal and \<open>WC_DIV\<close> when they
  differ, and no other flag. The code itself maps the predicted daughters back and
  compares with the ground-truth daughters, which is the same test under such a mapping.
\<close>

theorem matched_division_tp_or_wc:
  assumes "\<not> already_annotated md"
    and "distinct (node_ids (gt_graph md))" "distinct (node_ids (pred_graph md))"
    and "one_to_one (mapping md)"
    and "g \<in> set (get_divisions (gt_graph md))"
    and "get_gt_pred_match md g = Some p"
    and "p \<in> set (get_divisions (pred_graph md))"
  shows "gt_flags (classify_divisions md) g =
           insert (if Counter (map (get_gt_pred_match md) (successors (gt_graph md) g)) =
                      Counter (map Some (successors (pred_graph md) p))
                   then TP_DIV else WC_DIV) (gt_flags md g) \<and>
         pred_flags (classify_divisions md) p =
           insert (if Counter (map (get_gt_pred_match md) (successors (gt_graph md) g)) =
                      Counter (map Some (successors (pred_graph md) p))
                   then TP_DIV else WC_DIV) (pred_flags md p) \<and>
         (Counter (map (get_gt_pred_match md) (successors (gt_graph md) g)) =
            Counter (map Some (successors (pred_graph md) p)) \<longleftrightarrow>
          Counter (map Some (successors (gt_graph md) g)) =
            Counter (map (get_pred_gt_match md) (successors (pred_graph md) p)))"
proof -
  have v: "division_verdict md g p =
           (if Counter (map (get_gt_pred_match md) (successors (gt_graph md) g)) =
               Counter (map Some (successors (pred_graph md) p))
            then TP_DIV else WC_DIV)"
    unfolding division_verdict_def
    by (simp only: daughters_compare_iff [OF assms(4)])
  from classify_loop_division [OF assms(4) get_divisions_distinct [OF assms(2)] assms(5,6,7)
      get_divisions_distinct [OF assms(3)]]
  have "gt_flags (classify_divisions md) g = insert (division_verdict md g p) (gt_flags md g) \<and>
        pred_flags (classify_divisions md) p = insert (division_verdict md g p) (pred_flags md p)"
    using assms(1)
    by (simp add: classify_divisions_gt_flags classify_divisions_pred_flags
        working_div_pred_def classify_gt_loop_def)
  with v daughters_compare_iff [OF assms(4), symmetric] show ?thesis by simp
qed

theorem matched_division_tp_or_wc_witness:
  "\<not> already_annotated twin_matched \<and>
   distinct (node_ids (gt_graph twin_matched)) \<and> distinct (node_ids (pred_graph twin_matched)) \<and>
   one_to_one (mapping twin_matched) \<and>
   1 \<in> set (get_divisions (gt_graph twin_matched)) \<and>
   get_gt_pred_match twin_matched 1 = Some 11 \<and>
   11 \<in> set (get_divisions (pred_graph twin_matched)) \<and>
   gt_flags (classify_divisions twin_matched) 1 = {TP_DIV} \<and>
   pred_flags (classify_divisions twin_matched) 11 = {TP_DIV}"
proof -
  have h1: "\<not> already_annotated twin_matched" by code_simp
  have h2: "distinct (node_ids (gt_graph twin_matched))" by code_simp
  have h3: "distinct (node_ids (pred_graph twin_matched))" by code_simp
  have h4: "one_to_one (mapping twin_matched)" by code_simp
  have h5: "1 \<in> set (get_divisions (gt_graph twin_matched))" by code_simp
  have h6: "get_gt_pred_match twin_matched 1 = Some 11" by code_simp
  have h7: "11 \<in> set (get_divisions (pred_graph twin_matched))" by code_simp
  have eq: "Counter (map (get_gt_pred_match twin_matched) (successors (gt_graph twin_matched) 1)) =
            Counter (map Some (successors (pred_graph twin_matched) 11))" by code_simp
  have e: "gt_flags twin_matched 1 = {}" "pred_flags twin_matched 11 = {}" by code_simp+
  from matched_division_tp_or_wc [OF h1 h2 h3 h4 h5 h6 h7] eq e
  have "gt_flags (classify_divisions twin_matched) 1 = {TP_DIV}"
    "pred_flags (classify_divisions twin_matched) 11 = {TP_DIV}" by simp_all
  with h1 h2 h3 h4 h5 h6 h7 show ?thesis by simp
qed

text \<open>
  C2 as worded fails where the mapping is not one-to-one. In \<open>shared_partner\<close> the
  ground-truth division \<open>4\<close> is matched to the predicted division \<open>11\<close>, and its daughters
  are unmatched, a discrepancy with the daughters of \<open>11\<close>. The classifier has removed \<open>11\<close>
  from the working list when it judged \<open>1\<close>, so \<open>4\<close> is flagged \<open>FN_DIV\<close>, and \<open>11\<close> keeps the
  \<open>TP_DIV\<close> it received with \<open>1\<close>: neither carries \<open>WC_DIV\<close>.
\<close>

theorem matched_division_counterexample:
  "\<not> already_annotated shared_partner \<and>
   4 \<in> set (get_divisions (gt_graph shared_partner)) \<and>
   get_gt_pred_match shared_partner 4 = Some 11 \<and>
   11 \<in> set (get_divisions (pred_graph shared_partner)) \<and>
   Counter (map (get_gt_pred_match shared_partner) (successors (gt_graph shared_partner) 4)) \<noteq>
     Counter (map Some (successors (pred_graph shared_partner) 11)) \<and>
   gt_flags (classify_divisions shared_partner) 4 = {FN_DIV} \<and>
   pred_flags (classify_divisions shared_partner) 11 = {TP_DIV}"
  by code_simp

text \<open>
  The direction of the comparison matters as well once a node occurs in two pairs. In
  \<open>twin_overlapping\<close> the ground-truth daughters \<open>2\<close>, \<open>3\<close> map forward to \<open>12\<close>, \<open>13\<close>, the
  daughters of the matched predicted division \<open>11\<close>; the classifier maps \<open>12\<close>, \<open>13\<close> back,
  both to \<open>2\<close>, and flags both divisions \<open>WC_DIV\<close>.
\<close>

lemma daughters_direction_example:
  "Counter (map (get_gt_pred_match twin_overlapping) (successors (gt_graph twin_overlapping) 1)) =
     Counter (map Some (successors (pred_graph twin_overlapping) 11)) \<and>
   gt_flags (classify_divisions twin_overlapping) 1 = {WC_DIV} \<and>
   pred_flags (classify_divisions twin_overlapping) 11 = {WC_DIV}"
  by code_simp

section \<open>The claims about the corrector and the orchestrator\<close>

lemma late_tracked_run:
  "case evaluate_division_events late_tracked 3 of
     Inl e \<Rightarrow> False
   | Inr md' \<Rightarrow> 12 \<in> set (fp_divs md') \<and> pred_buffer md' 12 = Some (Buffer 1) \<and>
                1 \<in> set (fn_divs md') \<and> gt_buffer md' 1 = Some (Buffer 1)"
  by code_simp

text \<open>
  C1, as the code has it. Let \<open>evaluate_division_events\<close> return with maximal buffer \<open>m\<close>,
  and let a node flagged \<open>FP_DIV\<close> (or \<open>FN_DIV\<close>) carry the recorded buffer \<open>v\<close>. Then
  \<open>1 \<le> v \<le> m\<close>; run with any maximal buffer \<open>k < v\<close> the orchestrator leaves the node at
  the sentinel, and with any \<open>k\<close> from \<open>v\<close> to \<open>m\<close> it records \<open>v\<close>, so no pass after the one
  with buffer \<open>v\<close> changed the value; and the node has a partner of the other kind with the
  same recorded buffer, exactly \<open>v\<close> frames away, with which the comparison of the lineages
  succeeds, so that \<open>v\<close> is the least buffer at which this pair passes the frame guard.
  Moreover a pair with a resolved node is skipped by the loop body in any state, and a
  pass keeps every recorded buffer.
\<close>

theorem min_buffer_correct_minimal:
  assumes run: "evaluate_division_events md m = Inr md'"
  shows "(\<forall>x v. x \<in> set (fp_divs md') \<and> pred_buffer md' x = Some (Buffer v) \<longrightarrow>
            1 \<le> v \<and> v \<le> m \<and>
            (\<forall>k. 0 \<le> k \<and> k \<le> m \<longrightarrow>
               (\<exists>mk. evaluate_division_events md k = Inr mk \<and>
                     pred_buffer mk x = (if k < v then Some NaN else Some (Buffer v)))) \<and>
            (\<exists>y. y \<in> set (fn_divs md') \<and> gt_buffer md' y = Some (Buffer v) \<and>
                 \<bar>pred_frame md' x - gt_frame md' y\<bar> = v \<and>
                 compare_lineages md' x y = Inr True)) \<and>
         (\<forall>y v. y \<in> set (fn_divs md') \<and> gt_buffer md' y = Some (Buffer v) \<longrightarrow>
            1 \<le> v \<and> v \<le> m \<and>
            (\<forall>k. 0 \<le> k \<and> k \<le> m \<longrightarrow>
               (\<exists>mk. evaluate_division_events md k = Inr mk \<and>
                     gt_buffer mk y = (if k < v then Some NaN else Some (Buffer v)))) \<and>
            (\<exists>x. x \<in> set (fp_divs md') \<and> pred_buffer md' x = Some (Buffer v) \<and>
                 \<bar>pred_frame md' x - gt_frame md' y\<bar> = v \<and>
                 compare_lineages md' x y = Inr True)) \<and>
         (\<forall>s n fp fn. pred_resolved s fp \<or> gt_resolved s fn \<longrightarrow>
            shifted_pair_correct s n fp fn = Inr False) \<and>
         (\<forall>s n s' z b. correct_shifted_divisions s n = Inr s' \<longrightarrow>
            (pred_buffer s z = Some (Buffer b) \<longrightarrow> pred_buffer s' z = Some (Buffer b)) \<and>
            (gt_buffer s z = Some (Buffer b) \<longrightarrow> gt_buffer s' z = Some (Buffer b)))"
  using recorded_buffer_pred [OF run] recorded_buffer_gt [OF run] skip_resolved_pair correct_shifted_divisions_keeps
  by blast

theorem min_buffer_correct_minimal_witness:
  "\<exists>md'. evaluate_division_events late_tracked 3 = Inr md' \<and>
         12 \<in> set (fp_divs md') \<and> pred_buffer md' 12 = Some (Buffer 1) \<and>
         (\<exists>mk. evaluate_division_events late_tracked 0 = Inr mk \<and> pred_buffer mk 12 = Some NaN) \<and>
         (\<exists>mk. evaluate_division_events late_tracked 2 = Inr mk \<and>
               pred_buffer mk 12 = Some (Buffer 1)) \<and>
         (\<exists>y. y \<in> set (fn_divs md') \<and> gt_buffer md' y = Some (Buffer 1) \<and>
              \<bar>pred_frame md' 12 - gt_frame md' y\<bar> = 1 \<and>
              compare_lineages md' 12 y = Inr True)"
proof -
  from late_tracked_run obtain md' where run: "evaluate_division_events late_tracked 3 = Inr md'"
    and x: "12 \<in> set (fp_divs md')" "pred_buffer md' 12 = Some (Buffer 1)"
    by (auto split: sum.splits)
  from min_buffer_correct_minimal [OF run] x
  have range: "\<forall>k. 0 \<le> k \<and> k \<le> 3 \<longrightarrow>
               (\<exists>mk. evaluate_division_events late_tracked k = Inr mk \<and>
                     pred_buffer mk 12 = (if k < 1 then Some NaN else Some (Buffer 1)))"
    and partner: "\<exists>y. y \<in> set (fn_divs md') \<and> gt_buffer md' y = Some (Buffer 1) \<and>
                 \<bar>pred_frame md' 12 - gt_frame md' y\<bar> = 1 \<and>
                 compare_lineages md' 12 y = Inr True"
    by blast+
  from range [rule_format, of 0] range [rule_format, of 2]
  have "\<exists>mk. evaluate_division_events late_tracked 0 = Inr mk \<and> pred_buffer mk 12 = Some NaN"
    and "\<exists>mk. evaluate_division_events late_tracked 2 = Inr mk \<and>
              pred_buffer mk 12 = Some (Buffer 1)"
    by simp_all
  then show ?thesis using run x partner by simp
qed

text \<open>
  C1 as worded fails where two divisions compete for one counterpart. In \<open>chained\<close> the
  predicted divisions \<open>11\<close> and \<open>14\<close> are both one frame away from the ground-truth
  division \<open>2\<close>, and the lineages of either pair compare equal. The pass with buffer 1
  pairs \<open>11\<close> with \<open>2\<close> and then skips \<open>(14, 2)\<close>; the pass with buffer 2 pairs \<open>14\<close> with
  \<open>7\<close>. So \<open>14\<close> carries the buffer 2, although a buffer of 1 reconciles it with \<open>2\<close>.
\<close>

theorem min_buffer_correct_counterexample:
  "one_to_one (mapping chained) \<and>
   (case evaluate_division_events chained 3 of
      Inl e \<Rightarrow> False
    | Inr md' \<Rightarrow>
        fp_divs md' = [11, 14] \<and> fn_divs md' = [2, 7] \<and>
        pred_buffer md' 11 = Some (Buffer 1) \<and> gt_buffer md' 2 = Some (Buffer 1) \<and>
        pred_buffer md' 14 = Some (Buffer 2) \<and> gt_buffer md' 7 = Some (Buffer 2) \<and>
        \<bar>pred_frame md' 14 - gt_frame md' 2\<bar> = 1 \<and>
        compare_lineages md' 14 2 = Inr True \<and>
        shifted_pair_correct (mark_unset (classify_divisions chained)) 1 14 2 = Inr True)"
  by code_simp

text \<open>
  C3, as the code has it. Take graphs without merges in which the classifier has flagged
  the ground-truth division \<open>g\<close> \<open>FN_DIV\<close> and the predicted division \<open>p\<close> \<open>FP_DIV\<close>, \<open>p\<close> lies one
  frame after \<open>g\<close> (frames 5 and 6 in the scenario), the single predecessor of \<open>p\<close> is matched
  to \<open>g\<close>, and the daughters of \<open>p\<close> mapped back equal, as multisets, the daughters of \<open>g\<close>
  followed one frame forward. If no other \<open>FP_DIV\<close> node lies exactly one frame from \<open>g\<close> and
  no other \<open>FN_DIV\<close> node exactly one frame from \<open>p\<close>, then \<open>evaluate_division_events\<close> with
  \<open>max_frame_buffer = 1\<close> returns, records the buffer 1 on \<open>g\<close> and on \<open>p\<close>, and leaves every flag
  as the classifier set it, so \<open>g\<close> is still flagged \<open>FN_DIV\<close> and \<open>p\<close> \<open>FP_DIV\<close>.
\<close>

theorem late_division_corrected:
  assumes nm: "no_merges (gt_graph md)" "no_merges (pred_graph md)"
    and g: "g \<in> set (fn_divs (classify_divisions md))"
    and p: "p \<in> set (fp_divs (classify_divisions md))"
    and fr: "pred_frame md p = gt_frame md g + 1"
    and q: "predecessors (pred_graph md) p = [q]" "(g, q) \<in> set (mapping md)"
    and d: "Counter (map (get_pred_gt_match md) (successors (pred_graph md) p)) =
            Counter (map (\<lambda>d. get_succ_by_t (gt_graph md) d 1) (successors (gt_graph md) g))"
    and alone_fp: "list_all (\<lambda>x. x = p \<or> \<bar>pred_frame md x - gt_frame md g\<bar> \<noteq> 1)
                     (fp_divs (classify_divisions md))"
    and alone_fn: "list_all (\<lambda>y. y = g \<or> \<bar>pred_frame md p - gt_frame md y\<bar> \<noteq> 1)
                     (fn_divs (classify_divisions md))"
  shows "\<exists>md'. evaluate_division_events md 1 = Inr md' \<and>
           gt_buffer md' g = Some (Buffer 1) \<and> pred_buffer md' p = Some (Buffer 1) \<and>
           gt_flags md' = gt_flags (classify_divisions md) \<and>
           pred_flags md' = pred_flags (classify_divisions md) \<and>
           FN_DIV \<in> gt_flags md' g \<and> FP_DIV \<in> pred_flags md' p"
proof -
  let ?c = "classify_divisions md" and ?s = "mark_unset (classify_divisions md)"
  have tc: "same_tracks md ?c" by (rule classify_divisions_same_tracks)
  have lc: "same_lineages ?c ?s" by (rule mark_unset_same_lineages)
  from same_tracks_trans [OF tc same_lineages_tracks [OF lc]] have ts: "same_tracks md ?s" .
  then have frs: "pred_frame ?s = pred_frame md" "gt_frame ?s = gt_frame md"
    and eds: "edges (gt_graph ?s) = edges (gt_graph md)"
      "edges (pred_graph ?s) = edges (pred_graph md)"
    by (simp_all add: same_tracks_def)
  from nm eds no_merges_cong have nms: "no_merges (gt_graph ?s)" "no_merges (pred_graph ?s)"
    by blast+
  from correct_pairs_returns [OF nms, of 1 "fp_fn_pairs ?s"] obtain s'
    where run: "correct_pairs 1 ?s (fp_fn_pairs ?s) = Inr s'" by blast
  have "[1..1::int] = [1]" by (simp add: upto_rec1)
  with run have ev: "evaluate_division_events md 1 = Inr s'"
    by (simp add: evaluate_division_events_def correct_shifted_divisions_pairs)
  from fp_fn_divs_cong [OF lc] have divs: "fp_divs ?s = fp_divs ?c" "fn_divs ?s = fn_divs ?c"
    by simp_all
  from p g have start: "pred_buffer ?s p = Some NaN" "gt_buffer ?s g = Some NaN"
    by (simp_all add: mark_unset_buffers)
  from compare_lineages_one_frame_late [OF fr q d] compare_lineages_tracks [OF ts]
  have cmp: "compare_lineages ?s p g = Inr True" by simp
  from one_frame_late_pass [OF run, of p g] p g start fr cmp alone_fp alone_fn divs frs
  have buf: "pred_buffer s' p = Some (Buffer 1) \<and> gt_buffer s' g = Some (Buffer 1)" by simp
  from correct_pairs_same_lineages [OF run] lc
  have fl: "gt_flags s' = gt_flags ?c" "pred_flags s' = pred_flags ?c"
    by (simp_all add: same_lineages_def)
  from flagged_nodes [of p ?c] flagged_nodes(2) [of g ?c] p g fl
  have "FN_DIV \<in> gt_flags s' g" "FP_DIV \<in> pred_flags s' p" by simp_all
  with ev buf fl show ?thesis by blast
qed

theorem late_division_corrected_witness:
  "no_merges (gt_graph late_tracked) \<and> no_merges (pred_graph late_tracked) \<and>
   1 \<in> set (fn_divs (classify_divisions late_tracked)) \<and>
   12 \<in> set (fp_divs (classify_divisions late_tracked)) \<and>
   gt_frame late_tracked 1 = 5 \<and> pred_frame late_tracked 12 = 6 \<and>
   predecessors (pred_graph late_tracked) 12 = [11] \<and> (1, 11) \<in> set (mapping late_tracked) \<and>
   (1, 12) \<notin> set (mapping late_tracked) \<and>
   (\<exists>md'. evaluate_division_events late_tracked 1 = Inr md' \<and>
      gt_buffer md' 1 = Some (Buffer 1) \<and> pred_buffer md' 12 = Some (Buffer 1) \<and>
      FN_DIV \<in> gt_flags md' 1 \<and> FP_DIV \<in> pred_flags md' 12)"
proof -
  have nm: "no_merges (gt_graph late_tracked)" "no_merges (pred_graph late_tracked)"
    by code_simp+
  have g: "1 \<in> set (fn_divs (classify_divisions late_tracked))" by code_simp
  have p: "12 \<in> set (fp_divs (classify_divisions late_tracked))" by code_simp
  have t: "gt_frame late_tracked 1 = 5" "pred_frame late_tracked 12 = 6" by code_simp+
  then have fr: "pred_frame late_tracked 12 = gt_frame late_tracked 1 + 1" by simp
  have q: "predecessors (pred_graph late_tracked) 12 = [11]"
    "(1, 11) \<in> set (mapping late_tracked)" by code_simp+
  have n: "(1, 12) \<notin> set (mapping late_tracked)" by code_simp
  have d: "Counter (map (get_pred_gt_match late_tracked) (successors (pred_graph late_tracked) 12)) =
           Counter (map (\<lambda>d. get_succ_by_t (gt_graph late_tracked) d 1)
                        (successors (gt_graph late_tracked) 1))" by code_simp
  have a1: "list_all (\<lambda>x. x = 12 \<or> \<bar>pred_frame late_tracked x - gt_frame late_tracked 1\<bar> \<noteq> 1)
              (fp_divs (classify_divisions late_tracked))" by code_simp
  have a2: "list_all (\<lambda>y. y = 1 \<or> \<bar>pred_frame late_tracked 12 - gt_frame late_tracked y\<bar> \<noteq> 1)
              (fn_divs (classify_divisions late_tracked))" by code_simp
  from late_division_corrected [OF nm g p fr q d a1 a2]
  have "\<exists>md'. evaluate_division_events late_tracked 1 = Inr md' \<and>
      gt_buffer md' 1 = Some (Buffer 1) \<and> pred_buffer md' 12 = Some (Buffer 1) \<and>
      FN_DIV \<in> gt_flags md' 1 \<and> FP_DIV \<in> pred_flags md' 12" by blast
  with nm g p t q n show ?thesis by simp
qed

text \<open>
  C3 as worded fails where another division competes for \<open>g\<close>. In \<open>chained\<close>, a dataset
  without merges whose mapping is one-to-one and matches nodes of equal frames, the
  ground-truth division \<open>g = 2\<close> at frame 5 and the predicted division \<open>p = 14\<close> at frame 6 fit
  the scenario: they are not matched, the single predecessor \<open>12\<close> of \<open>p\<close> is matched to \<open>g\<close>,
  and the daughters of \<open>p\<close> map back to the daughters of \<open>g\<close> followed one frame forward. The
  pass with buffer 1 pairs \<open>g\<close> with the predicted division \<open>11\<close> at frame 4 first and then
  skips \<open>(14, 2)\<close>, so with \<open>max_frame_buffer = 1\<close> the node \<open>p\<close> keeps the sentinel.
\<close>

theorem late_division_counterexample:
  "no_merges (gt_graph chained) \<and> no_merges (pred_graph chained) \<and>
   2 \<in> set (fn_divs (classify_divisions chained)) \<and>
   14 \<in> set (fp_divs (classify_divisions chained)) \<and>
   gt_frame chained 2 = 5 \<and> pred_frame chained 14 = 6 \<and>
   successors (gt_graph chained) 2 = [3, 4] \<and> successors (pred_graph chained) 14 = [16, 17] \<and>
   predecessors (pred_graph chained) 14 = [12] \<and> (2, 12) \<in> set (mapping chained) \<and>
   (2, 14) \<notin> set (mapping chained) \<and>
   Counter (map (get_pred_gt_match chained) (successors (pred_graph chained) 14)) =
     Counter (map (\<lambda>d. get_succ_by_t (gt_graph chained) d 1) (successors (gt_graph chained) 2)) \<and>
   (case evaluate_division_events chained 1 of
      Inl e \<Rightarrow> False
    | Inr md' \<Rightarrow> pred_buffer md' 14 = Some NaN \<and> gt_buffer md' 2 = Some (Buffer 1) \<and>
                 pred_buffer md' 11 = Some (Buffer 1) \<and>
                 FN_DIV \<in> gt_flags md' 2 \<and> FP_DIV \<in> pred_flags md' 14)"
  by code_simp

text \<open>
  C4, as the code has it. The predecessor walk of \<open>k\<close> steps raises exactly when a node it
  reaches in fewer than \<open>k\<close> steps has more than one predecessor. Take a pair of an \<open>FP_DIV\<close>
  and an \<open>FN_DIV\<close> node in different frames within the buffer whose walk raises. If an
  earlier pair of the pass raises, the call ends in that error. Otherwise, in the state in
  which the loop reaches the pair: if one of its nodes carries a recorded buffer the pair
  is skipped and the loop goes on with the later pairs from the same state; if neither
  does, the call raises the merge error. No other error leaves the corrector.
\<close>

theorem merge_on_walk_raises:
  assumes pairs: "fp_fn_pairs md = earlier @ (fp, fn) # later"
    and "0 < \<bar>pred_frame md fp - gt_frame md fn\<bar>" "\<bar>pred_frame md fp - gt_frame md fn\<bar> \<le> n"
    and "walk_back md fp fn = Inl ValueError_merges"
  shows "(case correct_pairs n md earlier of
            Inl e \<Rightarrow> correct_shifted_divisions md n = Inl e
          | Inr m \<Rightarrow>
              if pred_resolved m fp \<or> gt_resolved m fn
              then correct_shifted_divisions md n = correct_pairs n m later
              else correct_shifted_divisions md n = Inl ValueError_merges) \<and>
         (\<forall>e. correct_shifted_divisions md n = Inl e \<longrightarrow> e = ValueError_merges) \<and>
         (\<forall>g x k. get_pred_by_t g x k = Inl ValueError_merges \<longleftrightarrow>
            (\<exists>j y. j < k \<and> get_pred_by_t g x j = Inr (Some y) \<and> 1 < length (predecessors g y)))"
proof -
  have walk: "\<forall>g x k. get_pred_by_t g x k = Inl ValueError_merges \<longleftrightarrow>
            (\<exists>j y. j < k \<and> get_pred_by_t g x j = Inr (Some y) \<and> 1 < length (predecessors g y))"
    using get_pred_by_t_error get_pred_by_t_merge by blast
  have errs: "\<forall>e. correct_shifted_divisions md n = Inl e \<longrightarrow> e = ValueError_merges"
    using correct_pairs_error by (auto simp: correct_shifted_divisions_pairs)
  have run: "correct_shifted_divisions md n =
        (case correct_pairs n md earlier of
           Inl e \<Rightarrow> Inl e
         | Inr m \<Rightarrow> correct_pairs n m ((fp, fn) # later))"
    by (simp add: correct_shifted_divisions_pairs pairs correct_pairs_append)
  have "case correct_pairs n md earlier of
            Inl e \<Rightarrow> correct_shifted_divisions md n = Inl e
          | Inr m \<Rightarrow>
              if pred_resolved m fp \<or> gt_resolved m fn
              then correct_shifted_divisions md n = correct_pairs n m later
              else correct_shifted_divisions md n = Inl ValueError_merges"
  proof (cases "correct_pairs n md earlier")
    case (Inl e)
    with run show ?thesis by simp
  next
    case (Inr m)
    from shifted_pair_correct_at_merge [OF correct_pairs_same_lineages [OF Inr] assms(2,3,4)]
    have "shifted_pair_correct m n fp fn =
           (if pred_resolved m fp \<or> gt_resolved m fn then Inr False else Inl ValueError_merges)" .
    with run Inr show ?thesis by simp
  qed
  with errs walk show ?thesis by blast
qed

theorem merge_on_walk_raises_witness:
  "fp_fn_pairs (mark_unset (classify_divisions late_merged_parent)) = [] @ (12, 1) # [] \<and>
   \<bar>pred_frame (mark_unset (classify_divisions late_merged_parent)) 12 -
     gt_frame (mark_unset (classify_divisions late_merged_parent)) 1\<bar> = 1 \<and>
   walk_back (mark_unset (classify_divisions late_merged_parent)) 12 1 = Inl ValueError_merges \<and>
   predecessors (pred_graph late_merged_parent) 12 = [11, 10] \<and>
   \<not> pred_resolved (mark_unset (classify_divisions late_merged_parent)) 12 \<and>
   \<not> gt_resolved (mark_unset (classify_divisions late_merged_parent)) 1 \<and>
   correct_shifted_divisions (mark_unset (classify_divisions late_merged_parent)) 1 =
     Inl ValueError_merges"
proof -
  let ?s = "mark_unset (classify_divisions late_merged_parent)"
  have h1: "fp_fn_pairs ?s = [] @ (12, 1) # []" by code_simp
  have h2: "\<bar>pred_frame ?s 12 - gt_frame ?s 1\<bar> = 1" by code_simp
  have h3: "walk_back ?s 12 1 = Inl ValueError_merges" by code_simp
  have h4: "predecessors (pred_graph late_merged_parent) 12 = [11, 10]" by code_simp
  have un: "\<not> pred_resolved ?s 12" "\<not> gt_resolved ?s 1" by code_simp+
  from h2 have a: "0 < \<bar>pred_frame ?s 12 - gt_frame ?s 1\<bar>" "\<bar>pred_frame ?s 12 - gt_frame ?s 1\<bar> \<le> 1"
    by simp_all
  from merge_on_walk_raises [OF h1 a h3] un
  have "correct_shifted_divisions ?s 1 = Inl ValueError_merges" by simp
  with h1 h2 h3 h4 un show ?thesis by simp
qed

text \<open>
  C4 as worded fails: a graph may hold a merge and the corrector still returns. In
  \<open>late_merging\<close> the predicted node \<open>15\<close> has the two predecessors \<open>13\<close> and \<open>14\<close>; no
  predecessor walk reaches it, and the orchestrator returns with the buffer 1 recorded.
\<close>

theorem merge_in_graph_counterexample:
  "predecessors (pred_graph late_merging) 15 = [13, 14] \<and>
   (case evaluate_division_events late_merging 1 of
      Inl e \<Rightarrow> False
    | Inr md' \<Rightarrow> gt_buffer md' 1 = Some (Buffer 1) \<and> pred_buffer md' 12 = Some (Buffer 1) \<and>
                 predecessors (pred_graph md') 15 = [13, 14]) \<and>
   (case correct_shifted_divisions (mark_unset (classify_divisions late_merging)) 1 of
      Inl e \<Rightarrow> False
    | Inr md' \<Rightarrow> pred_buffer md' 12 = Some (Buffer 1))"
  by code_simp

text \<open>
  C10. In one call of the corrector the pairs at which the two assignments are reached
  hold each \<open>FP_DIV\<close> node at most once and each \<open>FN_DIV\<close> node at most once, are pairs of the
  cross product, and consist of nodes that were unresolved when the call began; the
  buffers after the call are the buffers before it with \<open>n_frames\<close> written exactly on the
  nodes of these pairs, so no node is written twice.
\<close>

theorem each_node_attributed_once:
  "distinct (map fst (corrected_pairs n md (fp_fn_pairs md))) \<and>
   distinct (map snd (corrected_pairs n md (fp_fn_pairs md))) \<and>
   set (corrected_pairs n md (fp_fn_pairs md)) \<subseteq> set (fp_fn_pairs md) \<and>
   (\<forall>fp fn. (fp, fn) \<in> set (corrected_pairs n md (fp_fn_pairs md)) \<longrightarrow>
      \<not> pred_resolved md fp \<and> \<not> gt_resolved md fn) \<and>
   (\<forall>md' x y. correct_shifted_divisions md n = Inr md' \<longrightarrow>
      pred_buffer md' x =
        (if x \<in> fst ` set (corrected_pairs n md (fp_fn_pairs md))
         then Some (Buffer n) else pred_buffer md x) \<and>
      gt_buffer md' y =
        (if y \<in> snd ` set (corrected_pairs n md (fp_fn_pairs md))
         then Some (Buffer n) else gt_buffer md y))"
  using corrected_pairs_distinct [of n md "fp_fn_pairs md"]
    corrected_pairs_subset [of n md "fp_fn_pairs md"]
    corrected_pairs_unresolved [of _ _ n md "fp_fn_pairs md"]
    correct_pairs_buffers [of n md "fp_fn_pairs md"]
  by (simp add: correct_shifted_divisions_pairs)

theorem each_node_attributed_once_witness:
  "corrected_pairs 1 (mark_unset (classify_divisions late_tracked))
     (fp_fn_pairs (mark_unset (classify_divisions late_tracked))) = [(12, 1)] \<and>
   \<not> pred_resolved (mark_unset (classify_divisions late_tracked)) 12 \<and>
   \<not> gt_resolved (mark_unset (classify_divisions late_tracked)) 1 \<and>
   (\<exists>md'. correct_shifted_divisions (mark_unset (classify_divisions late_tracked)) 1 = Inr md' \<and>
          pred_buffer md' 12 = Some (Buffer 1) \<and> gt_buffer md' 1 = Some (Buffer 1) \<and>
          gt_buffer md' 2 = gt_buffer (mark_unset (classify_divisions late_tracked)) 2)"
proof -
  let ?s = "mark_unset (classify_divisions late_tracked)"
  have tr: "corrected_pairs 1 ?s (fp_fn_pairs ?s) = [(12, 1)]" by code_simp
  have "case correct_shifted_divisions ?s 1 of Inl e \<Rightarrow> False | Inr m \<Rightarrow> True" by code_simp
  then obtain md' where run: "correct_shifted_divisions ?s 1 = Inr md'"
    by (auto split: sum.splits)
  from each_node_attributed_once [of 1 ?s] tr run
  have un: "\<not> pred_resolved ?s 12 \<and> \<not> gt_resolved ?s 1"
    and buf: "\<forall>x y. pred_buffer md' x = (if x \<in> fst ` set [(12, 1)] then Some (Buffer 1)
                                          else pred_buffer ?s x) \<and>
                    gt_buffer md' y = (if y \<in> snd ` set [(12, 1)] then Some (Buffer 1)
                                        else gt_buffer ?s y)"
    by simp_all
  from buf [rule_format, of 12 1] buf [rule_format, of 12 2]
  have "pred_buffer md' 12 = Some (Buffer 1)" "gt_buffer md' 1 = Some (Buffer 1)"
    "gt_buffer md' 2 = gt_buffer ?s 2" by simp_all
  with tr un run show ?thesis by simp
qed

section \<open>The claims about IoU matching\<close>

text \<open>
  C8 at two inputs on which the per-frame matcher raises. For two \<open>uint8\<close> frames of the
  same shape in which the label \<open>255\<close> of the first covers exactly the pixel that the label
  \<open>1\<close> of the second covers, the finder proposes the pair \<open>(255, 1)\<close>, whose IoU is 1; the sum
  \<open>np.max(gt) + 1\<close> wraps to 0, the IoU matrix has no row, and the write of the first
  candidate raises \<open>IndexError\<close>. The same labels in a 64-bit frame give the match
  \<open>(255, 1)\<close>. For two frames without pixels the finder proposes nothing, and \<open>np.max\<close>
  raises instead of the empty match being returned.
\<close>

theorem match_nodes_label_overflow:
  "length (pixels frame_u8_full) = length (pixels frame_u8_one) \<and>
   candidate_pairs full_finder frame_u8_full frame_u8_one = [(255, 1)] \<and>
   exact_divide (intersection_sum (pixels frame_u8_full) (pixels frame_u8_one) 255 1)
                (union_sum (pixels frame_u8_full) (pixels frame_u8_one) 255 1) = 1 \<and>
   np_max frame_u8_full = Inr 255 \<and> plus_one (frame_dtype frame_u8_full) 255 = 0 \<and>
   match_nodes full_finder exact_divide frame_u8_full frame_u8_one (6 / 10) = Inl IndexError \<and>
   match_nodes full_finder exact_divide (frame_u8_full\<lparr>frame_dtype := Signed 64\<rparr>)
     (frame_u8_one\<lparr>frame_dtype := Signed 64\<rparr>) (6 / 10) = Inr ([255], [1]) \<and>
   candidate_pairs empty_finder frame_no_pixels frame_no_pixels = [] \<and>
   match_nodes empty_finder exact_divide frame_no_pixels frame_no_pixels (6 / 10) =
     Inl ValueError_empty_array"
  by code_simp

text \<open>
  C9. \<open>match_iou\<close> raises when either argument is not a tracking graph and when the two
  segmentations differ in shape; \<open>_compute_mapping\<close> raises when either graph has no
  segmentation (and so does \<open>match_iou\<close> called on such graphs directly). In each case the
  result is the error and no mapping.
\<close>

theorem match_iou_invalid_input:
  "(gt = Other_object \<or> pred = Other_object \<longrightarrow>
      match_iou finder true_divide gt pred threshold = Inl ValueError_not_tracking_data) \<and>
   (segmentation g = Some gt_seg \<and> segmentation p = Some pred_seg \<and>
    shape gt_seg \<noteq> shape pred_seg \<longrightarrow>
      match_iou finder true_divide (TrackingGraph_object g) (TrackingGraph_object p) threshold =
        Inl ValueError_shape_mismatch \<and>
      compute_mapping finder true_divide threshold g p = Inl ValueError_shape_mismatch) \<and>
   (segmentation g = None \<or> segmentation p = None \<longrightarrow>
      compute_mapping finder true_divide threshold g p = Inl ValueError_no_segmentation \<and>
      match_iou finder true_divide (TrackingGraph_object g) (TrackingGraph_object p) threshold =
        Inl AttributeError)"
proof (intro conjI impI)
  assume "gt = Other_object \<or> pred = Other_object"
  then show "match_iou finder true_divide gt pred threshold = Inl ValueError_not_tracking_data"
    by (auto simp: match_iou_def split: py_object.splits)
next
  assume a: "segmentation g = Some gt_seg \<and> segmentation p = Some pred_seg \<and>
             shape gt_seg \<noteq> shape pred_seg"
  then show m: "match_iou finder true_divide (TrackingGraph_object g) (TrackingGraph_object p)
                  threshold = Inl ValueError_shape_mismatch"
    by (simp add: match_iou_def)
  with a show "compute_mapping finder true_divide threshold g p = Inl ValueError_shape_mismatch"
    by (simp add: compute_mapping_def)
next
  assume a: "segmentation g = None \<or> segmentation p = None"
  then show "compute_mapping finder true_divide threshold g p = Inl ValueError_no_segmentation"
    by (simp add: compute_mapping_def)
  from a show "match_iou finder true_divide (TrackingGraph_object g) (TrackingGraph_object p)
                 threshold = Inl AttributeError"
    by (auto simp: match_iou_def split: option.splits)
qed

theorem match_iou_invalid_input_witness:
  "match_iou diagonal_finder exact_divide Other_object (TrackingGraph_object segmented_b) (6 / 10) =
     Inl ValueError_not_tracking_data \<and>
   segmentation segmented_a = Some \<lparr>seg_dtype = Signed 64, shape = [1, 2, 2], frames = [pixels frame_a]\<rparr> \<and>
   segmentation segmented_flat = Some \<lparr>seg_dtype = Signed 64, shape = [1, 4], frames = [pixels frame_b]\<rparr> \<and>
   match_iou diagonal_finder exact_divide (TrackingGraph_object segmented_a)
     (TrackingGraph_object segmented_flat) (6 / 10) = Inl ValueError_shape_mismatch \<and>
   segmentation late_gt = None \<and>
   compute_mapping diagonal_finder exact_divide (6 / 10) late_gt segmented_b =
     Inl ValueError_no_segmentation \<and>
   (case compute_mapping diagonal_finder exact_divide (6 / 10) segmented_a segmented_b of
      Inl e \<Rightarrow> False | Inr m \<Rightarrow> mapping m = [(2, 2)])"
proof -
  note inst = match_iou_invalid_input [where finder = diagonal_finder
      and true_divide = exact_divide and threshold = "6 / 10"]
  have s1: "segmentation segmented_a = Some \<lparr>seg_dtype = Signed 64, shape = [1, 2, 2], frames = [pixels frame_a]\<rparr>"
    by (simp add: segmented_a_def plain_graph_def)
  have s2: "segmentation segmented_flat = Some \<lparr>seg_dtype = Signed 64, shape = [1, 4], frames = [pixels frame_b]\<rparr>"
    by (simp add: segmented_flat_def plain_graph_def)
  have s3: "segmentation late_gt = None" by (simp add: late_gt_def plain_graph_def)
  from inst [where gt = Other_object and pred = "TrackingGraph_object segmented_b"]
  have a: "match_iou diagonal_finder exact_divide Other_object
             (TrackingGraph_object segmented_b) (6 / 10) = Inl ValueError_not_tracking_data"
    by simp
  from inst [where g = segmented_a and gt_seg = "\<lparr>seg_dtype = Signed 64, shape = [1, 2, 2], frames = [pixels frame_a]\<rparr>"
      and p = segmented_flat and pred_seg = "\<lparr>seg_dtype = Signed 64, shape = [1, 4], frames = [pixels frame_b]\<rparr>"] s1 s2
  have b: "match_iou diagonal_finder exact_divide (TrackingGraph_object segmented_a)
             (TrackingGraph_object segmented_flat) (6 / 10) = Inl ValueError_shape_mismatch"
    by simp
  from inst [where g = late_gt and p = segmented_b] s3
  have c: "compute_mapping diagonal_finder exact_divide (6 / 10) late_gt segmented_b =
             Inl ValueError_no_segmentation"
    by simp
  have d: "case compute_mapping diagonal_finder exact_divide (6 / 10) segmented_a segmented_b of
             Inl e \<Rightarrow> False | Inr m \<Rightarrow> mapping m = [(2, 2)]"
    by code_simp
  from a s1 s2 b s3 c d show ?thesis by simp
qed

end
